theory Spec2Isabelle
  imports Main "HOL-Library.Word"
begin

section \<open>Outcomes of fallible code\<close>

text \<open>
  A Go function of the pipeline either returns or panics.  A panic is a value of the
  model: the tokenizer's three \<open>panic(...)\<close> calls carry the offending character and the
  line and column that the message is formatted from, the run-time panics of Go itself
  (an index or slice out of range, a failed type assertion, the dereference of a nil
  pointer) are the remaining cases.
\<close>

type_synonym byte = "8 word"
type_synonym int64 = "64 word"

text \<open>A value of Go's \<open>interface{}\<close>: nil, an \<open>int64\<close>, or a value of any other type.\<close>

datatype val = Nil | Int64 int64 | Other

datatype panic =
    InvalidEscape char nat nat
  | UnclosedChar nat nat
  | UnclosedString nat nat
  | UnexpectedChar char nat nat
  | IndexOutOfRange
  | TypeAssertion val
  | NilDereference

datatype 'a outcome = Returned 'a | Panicked panic

text \<open>Go's \<open>error\<close>: here the message of \<open>fmt.Errorf\<close>.\<close>

type_synonym error = string

section \<open>Tokens (lexer/tokentype.go, package lexer)\<close>

text \<open>
  The token types in the order of the \<open>iota\<close> constants; \<open>PUBLIC\<close> is the zero value.
  The constants \<open>CHAR\<close> and \<open>INT\<close> are written \<open>CHARTK\<close> and \<open>INTTK\<close>, their
  output codes, since \<open>CHAR\<close> and \<open>INT\<close> are taken by the notation for the
  characteristic of a ring and for intersections.
\<close>

datatype TokenType =
    PUBLIC | CLASS | STATIC | VOID | MAIN | CHARTK | INTTK | PRINTF | SCANF | SWITCH
  | CASE | DEFAULT | FOR | IF | ELSE | WHILE | DO | RETURN | BREAK | CONTINUE
  | IDENTIFIER | STRING | CharConst | NUMBER
  | ASSIGN | PLUS | MINUS | MULTIPLY | DIVIDE | LESS | LessEqual | GREAT
  | GreatEqual | NOTEQ | NOT | EQUAL
  | COMMA | SEMICOLON | COLON | LeftParen | RightParen | LeftBrace | RightBrace
  | LeftBrack | RightBrack
  | EOF

record Token =
  Type :: TokenType
  Value :: string
  Line :: nat
  Column :: nat

section \<open>Tokenizer (lexer/lexer.go)\<close>

text \<open>
  The input is a Go string, a sequence of bytes; \<open>rune(input[pos])\<close> makes every byte
  a rune between 0 and 255, so \<open>currentChar\<close> is a \<open>char\<close>, with 0 for the end of the
  input.  \<open>unicode.IsSpace\<close>, \<open>unicode.IsDigit\<close> and \<open>unicode.IsLetter\<close> belong to
  the Go standard library; they are given here on that range (Latin-1), following the
  Unicode categories the library documents.  \<open>rune_string\<close> is the conversion
  \<open>string(r)\<close> of a rune to its UTF-8 encoding.
\<close>

record Lexer =
  input :: string
  pos :: nat
  line :: nat
  column :: nat
  currentChar :: char

definition IsSpace :: "char \<Rightarrow> bool" where
  "IsSpace c = (c = CHR 0x09 \<or> c = CHR 0x0A \<or> c = CHR 0x0B \<or> c = CHR 0x0C \<or> c = CHR 0x0D
                \<or> c = CHR 0x20 \<or> c = CHR 0x85 \<or> c = CHR 0xA0)"

definition IsDigit :: "char \<Rightarrow> bool" where
  "IsDigit c = (0x30 \<le> (of_char c :: nat) \<and> (of_char c :: nat) \<le> 0x39)"

definition IsLetter :: "char \<Rightarrow> bool" where
  "IsLetter c =
     (let n = (of_char c :: nat)
      in (0x41 \<le> n \<and> n \<le> 0x5A) \<or> (0x61 \<le> n \<and> n \<le> 0x7A)
         \<or> n = 0xAA \<or> n = 0xB5 \<or> n = 0xBA
         \<or> (0xC0 \<le> n \<and> n \<le> 0xD6) \<or> (0xD8 \<le> n \<and> n \<le> 0xF6) \<or> 0xF8 \<le> n)"

definition rune_string :: "char \<Rightarrow> string" where
  "rune_string c =
     (if (of_char c :: nat) < 0x80 then [c]
      else [char_of (0xC0 + (of_char c :: nat) div 0x40), char_of (0x80 + (of_char c :: nat) mod 0x40)])"

definition reverseKeywords :: "string \<Rightarrow> TokenType option" where
  "reverseKeywords = map_of
     [(''public'', PUBLIC), (''class'', CLASS), (''static'', STATIC), (''void'', VOID),
      (''main'', MAIN), (''char'', CHARTK), (''int'', INTTK), (''printf'', PRINTF),
      (''scanf'', SCANF), (''switch'', SWITCH), (''case'', CASE), (''default'', DEFAULT),
      (''for'', FOR), (''if'', IF), (''else'', ELSE), (''while'', WHILE), (''do'', DO),
      (''return'', RETURN), (''break'', BREAK), (''continue'', CONTINUE)]"

definition New_Lexer :: "string \<Rightarrow> Lexer" where
  "New_Lexer inp =
     \<lparr>input = inp, pos = 0, line = 1, column = 1,
      currentChar = (if length inp > 0 then inp ! 0 else CHR 0x00)\<rparr>"

definition advance :: "Lexer \<Rightarrow> Lexer" where
  "advance l =
     (let l1 = (if currentChar l = CHR 0x0A then l\<lparr>line := line l + 1, column := 0\<rparr> else l);
          l2 = l1\<lparr>pos := pos l1 + 1\<rparr>;
          l3 = (if pos l2 \<ge> length (input l2) then l2\<lparr>currentChar := CHR 0x00\<rparr>
                else l2\<lparr>currentChar := input l2 ! pos l2\<rparr>)
      in l3\<lparr>column := column l3 + 1\<rparr>)"

text \<open>
  The loops of the tokenizer stop at the latest at the end of the input: every
  \<open>advance\<close> from a character other than 0 brings the end closer.
\<close>

definition remaining :: "Lexer \<Rightarrow> nat" where
  "remaining l = (if currentChar l = CHR 0x00 then 0 else Suc (length (input l) - pos l))"

lemma advance_remaining:
  "currentChar l \<noteq> CHR 0x00 \<Longrightarrow> remaining (advance l) < remaining l"
  by (auto simp: advance_def remaining_def Let_def)

lemma IsSpace_not_NUL: "IsSpace c \<Longrightarrow> c \<noteq> CHR 0x00"
  by (auto simp: IsSpace_def)

lemma IsDigit_not_NUL: "IsDigit c \<Longrightarrow> c \<noteq> CHR 0x00"
  by (auto simp: IsDigit_def)

lemma IsLetter_not_NUL: "IsLetter c \<Longrightarrow> c \<noteq> CHR 0x00"
  by (auto simp: IsLetter_def)

function skipWhitespace :: "Lexer \<Rightarrow> Lexer" where
  "skipWhitespace l = (if IsSpace (currentChar l) then skipWhitespace (advance l) else l)"
  by pat_completeness auto
termination
  by (relation "measure remaining") (simp_all add: advance_remaining IsSpace_not_NUL)

declare skipWhitespace.simps [simp del]

text \<open>The slice expression \<open>s[lo:hi]\<close>, which panics out of range.\<close>

definition slice :: "string \<Rightarrow> nat \<Rightarrow> nat \<Rightarrow> string outcome" where
  "slice s lo hi =
     (if lo \<le> hi \<and> hi \<le> length s then Returned (take (hi - lo) (drop lo s))
      else Panicked IndexOutOfRange)"

function readIdentifier_loop :: "Lexer \<Rightarrow> Lexer" where
  "readIdentifier_loop l =
     (if IsLetter (currentChar l) \<or> IsDigit (currentChar l)
      then readIdentifier_loop (advance l) else l)"
  by pat_completeness auto
termination
  by (relation "measure remaining")
     (auto simp: advance_remaining IsLetter_not_NUL IsDigit_not_NUL)

declare readIdentifier_loop.simps [simp del]

definition readIdentifier :: "Lexer \<Rightarrow> (Token \<times> Lexer) outcome" where
  "readIdentifier l =
     (let startPos = pos l; startLine = line l; startCol = column l;
          l1 = readIdentifier_loop l
      in case slice (input l1) startPos (pos l1) of
           Panicked e \<Rightarrow> Panicked e
         | Returned v \<Rightarrow>
             (let tokenType = (case reverseKeywords v of Some kw \<Rightarrow> kw | None \<Rightarrow> IDENTIFIER)
              in Returned (\<lparr>Type = tokenType, Value = v, Line = startLine, Column = startCol\<rparr>, l1)))"

function readNumber_loop :: "Lexer \<Rightarrow> Lexer" where
  "readNumber_loop l = (if IsDigit (currentChar l) then readNumber_loop (advance l) else l)"
  by pat_completeness auto
termination
  by (relation "measure remaining") (simp_all add: advance_remaining IsDigit_not_NUL)

declare readNumber_loop.simps [simp del]

definition readNumber :: "Lexer \<Rightarrow> (Token \<times> Lexer) outcome" where
  "readNumber l =
     (let startPos = pos l; startLine = line l; startCol = column l;
          l1 = readNumber_loop l
      in case slice (input l1) startPos (pos l1) of
           Panicked e \<Rightarrow> Panicked e
         | Returned v \<Rightarrow>
             Returned (\<lparr>Type = NUMBER, Value = v, Line = startLine, Column = startCol\<rparr>, l1))"

definition readChar :: "Lexer \<Rightarrow> (Token \<times> Lexer) outcome" where
  "readChar l =
     (let startLine = line l; startCol = column l;
          l1 = advance l;
          r = (if currentChar l1 = CHR 0x5C then
                 (let l2 = advance l1
                  in if currentChar l2 = CHR ''n'' then Returned ([CHR 0x0A], advance l2)
                     else if currentChar l2 = CHR ''t'' then Returned ([CHR 0x09], advance l2)
                     else if currentChar l2 = CHR ''r'' then Returned ([CHR 0x0D], advance l2)
                     else if currentChar l2 = CHR 0x27 then Returned ([CHR 0x27], advance l2)
                     else if currentChar l2 = CHR 0x5C then Returned ([CHR 0x5C], advance l2)
                     else Panicked (InvalidEscape (currentChar l2) (line l2) (column l2)))
               else Returned (rune_string (currentChar l1), advance l1))
      in case r of
           Panicked e \<Rightarrow> Panicked e
         | Returned (v, l3) \<Rightarrow>
             if currentChar l3 \<noteq> CHR 0x27 then Panicked (UnclosedChar startLine startCol)
             else Returned (\<lparr>Type = CharConst, Value = v, Line = startLine, Column = startCol\<rparr>,
                            advance l3))"

function readString_loop :: "Lexer \<Rightarrow> string \<Rightarrow> (string \<times> Lexer) outcome" where
  "readString_loop l v =
     (if currentChar l \<noteq> CHR 0x22 \<and> currentChar l \<noteq> CHR 0x00 then
        (if currentChar l = CHR 0x5C then
           (let l1 = advance l
            in if currentChar l1 = CHR ''n'' then readString_loop (advance l1) (v @ [CHR 0x0A])
               else if currentChar l1 = CHR ''t'' then readString_loop (advance l1) (v @ [CHR 0x09])
               else if currentChar l1 = CHR ''r'' then readString_loop (advance l1) (v @ [CHR 0x0D])
               else if currentChar l1 = CHR 0x22 then readString_loop (advance l1) (v @ [CHR 0x22])
               else if currentChar l1 = CHR 0x5C then readString_loop (advance l1) (v @ [CHR 0x5C])
               else Panicked (InvalidEscape (currentChar l1) (line l1) (column l1)))
         else readString_loop (advance l) (v @ rune_string (currentChar l)))
      else Returned (v, l))"
  by pat_completeness auto
termination
proof (relation "measure (\<lambda>(l, v). remaining l)")
  fix l :: Lexer and v :: string and l1 :: Lexer
  assume a: "currentChar l \<noteq> CHR 0x22 \<and> currentChar l \<noteq> CHR 0x00" "l1 = advance l"
  have 1: "remaining l1 < remaining l" using a advance_remaining by simp
  have 2: "remaining (advance l1) < remaining l" if "currentChar l1 \<noteq> CHR 0x00"
    using advance_remaining [OF that] 1 by simp
  show "currentChar l1 = CHR ''n'' \<Longrightarrow> ((advance l1, v @ [CHR 0x0A]), l, v) \<in> measure (\<lambda>(l, v). remaining l)"
    using 2 by simp
  show "currentChar l1 = CHR ''t'' \<Longrightarrow> ((advance l1, v @ [CHR 0x09]), l, v) \<in> measure (\<lambda>(l, v). remaining l)"
    using 2 by simp
  show "currentChar l1 = CHR ''r'' \<Longrightarrow> ((advance l1, v @ [CHR 0x0D]), l, v) \<in> measure (\<lambda>(l, v). remaining l)"
    using 2 by simp
  show "currentChar l1 = CHR 0x22 \<Longrightarrow> ((advance l1, v @ [CHR 0x22]), l, v) \<in> measure (\<lambda>(l, v). remaining l)"
    using 2 by simp
  show "currentChar l1 = CHR 0x5C \<Longrightarrow> ((advance l1, v @ [CHR 0x5C]), l, v) \<in> measure (\<lambda>(l, v). remaining l)"
    using 2 by simp
next
  fix l :: Lexer and v :: string
  assume "currentChar l \<noteq> CHR 0x22 \<and> currentChar l \<noteq> CHR 0x00"
  then show "((advance l, v @ rune_string (currentChar l)), l, v) \<in> measure (\<lambda>(l, v). remaining l)"
    using advance_remaining by simp
qed simp

declare readString_loop.simps [simp del]

definition readString :: "Lexer \<Rightarrow> (Token \<times> Lexer) outcome" where
  "readString l =
     (let startLine = line l; startCol = column l;
          l1 = advance l
      in case readString_loop l1 [] of
           Panicked e \<Rightarrow> Panicked e
         | Returned (v, l2) \<Rightarrow>
             if currentChar l2 \<noteq> CHR 0x22 then Panicked (UnclosedString startLine startCol)
             else Returned (\<lparr>Type = STRING, Value = v, Line = startLine, Column = startCol\<rparr>,
                            advance l2))"


text \<open>
  The last part of the loop body of \<open>NextToken\<close>: operators and delimiters, with one
  character of lookahead for \<open>==\<close>, \<open>!=\<close>, \<open><=\<close> and \<open>>=\<close>.
\<close>

definition operator_token :: "Lexer \<Rightarrow> (Token \<times> Lexer) outcome" where
  "operator_token l =
     (let c = currentChar l; currentLine = line l; currentCol = column l;
          l1 = advance l
      in
           if c = CHR ''='' then
             (if currentChar l1 = CHR ''='' then Returned (\<lparr>Type = EQUAL, Value = ''=='', Line = currentLine, Column = currentCol\<rparr>, advance l1)
              else Returned (\<lparr>Type = ASSIGN, Value = ''='', Line = currentLine, Column = currentCol\<rparr>, l1))
           else if c = CHR ''!'' then
             (if currentChar l1 = CHR ''='' then Returned (\<lparr>Type = NOTEQ, Value = ''!='', Line = currentLine, Column = currentCol\<rparr>, advance l1)
              else Returned (\<lparr>Type = NOT, Value = ''!'', Line = currentLine, Column = currentCol\<rparr>, l1))
           else if c = CHR ''<'' then
             (if currentChar l1 = CHR ''='' then Returned (\<lparr>Type = LessEqual, Value = ''<='', Line = currentLine, Column = currentCol\<rparr>, advance l1)
              else Returned (\<lparr>Type = LESS, Value = ''<'', Line = currentLine, Column = currentCol\<rparr>, l1))
           else if c = CHR ''>'' then
             (if currentChar l1 = CHR ''='' then Returned (\<lparr>Type = GreatEqual, Value = ''>='', Line = currentLine, Column = currentCol\<rparr>, advance l1)
              else Returned (\<lparr>Type = GREAT, Value = ''>'', Line = currentLine, Column = currentCol\<rparr>, l1))
           else if c = CHR ''+'' then Returned (\<lparr>Type = PLUS, Value = ''+'', Line = currentLine, Column = currentCol\<rparr>, l1)
           else if c = CHR ''-'' then Returned (\<lparr>Type = MINUS, Value = ''-'', Line = currentLine, Column = currentCol\<rparr>, l1)
           else if c = CHR ''*'' then Returned (\<lparr>Type = MULTIPLY, Value = ''*'', Line = currentLine, Column = currentCol\<rparr>, l1)
           else if c = CHR ''/'' then Returned (\<lparr>Type = DIVIDE, Value = ''/'', Line = currentLine, Column = currentCol\<rparr>, l1)
           else if c = CHR '';'' then Returned (\<lparr>Type = SEMICOLON, Value = '';'', Line = currentLine, Column = currentCol\<rparr>, l1)
           else if c = CHR '','' then Returned (\<lparr>Type = COMMA, Value = '','', Line = currentLine, Column = currentCol\<rparr>, l1)
           else if c = CHR ''('' then Returned (\<lparr>Type = LeftParen, Value = ''('', Line = currentLine, Column = currentCol\<rparr>, l1)
           else if c = CHR '')'' then Returned (\<lparr>Type = RightParen, Value = '')'', Line = currentLine, Column = currentCol\<rparr>, l1)
           else if c = CHR ''{'' then Returned (\<lparr>Type = LeftBrace, Value = ''{'', Line = currentLine, Column = currentCol\<rparr>, l1)
           else if c = CHR ''}'' then Returned (\<lparr>Type = RightBrace, Value = ''}'', Line = currentLine, Column = currentCol\<rparr>, l1)
           else if c = CHR ''['' then Returned (\<lparr>Type = LeftBrack, Value = ''['', Line = currentLine, Column = currentCol\<rparr>, l1)
           else if c = CHR '']'' then Returned (\<lparr>Type = RightBrack, Value = '']'', Line = currentLine, Column = currentCol\<rparr>, l1)
           else if c = CHR '':'' then Returned (\<lparr>Type = COLON, Value = '':'', Line = currentLine, Column = currentCol\<rparr>, l1)
           else Panicked (UnexpectedChar c currentLine currentCol))"

lemma skipWhitespace_not_space: "\<not> IsSpace (currentChar (skipWhitespace l))"
  by (induction l rule: skipWhitespace.induct) (simp add: skipWhitespace.simps)

function NextToken :: "Lexer \<Rightarrow> (Token \<times> Lexer) outcome" where
  "NextToken l =
     (if currentChar l \<noteq> CHR 0x00 then
        (if IsSpace (currentChar l) then NextToken (skipWhitespace l)
         else if currentChar l = CHR 0x27 then readChar l
         else if currentChar l = CHR 0x22 then readString l
         else if IsLetter (currentChar l) then readIdentifier l
         else if IsDigit (currentChar l) then readNumber l
         else operator_token l)
      else Returned (\<lparr>Type = EOF, Value = [], Line = line l, Column = column l\<rparr>, l))"
  by pat_completeness auto
termination
  by (relation "measure (\<lambda>l. if IsSpace (currentChar l) then 1 else 0)")
     (simp_all add: skipWhitespace_not_space)

declare NextToken.simps [simp del]

section \<open>Expression trees (package ast)\<close>

text \<open>
  A value of the interface \<open>ast.Node\<close>: the nil interface (what \<open>parseIntegerLiteral\<close>
  returns on a failed conversion), a pointer to one of the three structs of the package,
  a nil pointer of one of these three pointer types held in the interface, or a node of
  some other type that implements the interface.
\<close>

datatype pointee = ToProgram | ToInfixExpression | ToIntegerLiteral

datatype Node =
    NilNode
  | Program Node
  | InfixExpression Token Node string Node
  | IntegerLiteral Token int64
  | NilPointer pointee
  | OtherNode

section \<open>Bytecode and compiler (package compiler)\<close>

definition OpConstant :: byte where "OpConstant = 0"
definition OpAdd :: byte where "OpAdd = 1"
definition OpSub :: byte where "OpSub = 2"

record Bytecode =
  Instructions :: "byte list"
  Constants :: "val list"

record Compiler =
  instructions :: "byte list"
  constants :: "val list"

definition New_Compiler :: Compiler where
  "New_Compiler = \<lparr>instructions = [], constants = []\<rparr>"

text \<open>
  \<open>emit\<close>: the opcode byte, then two bytes for each operand, \<open>byte(o>>8)\<close> and
  \<open>byte(o)\<close>; the conversion to \<open>byte\<close> keeps the low eight bits.
\<close>

definition emit :: "Compiler \<Rightarrow> byte \<Rightarrow> int list \<Rightarrow> Compiler" where
  "emit c op operands =
     c\<lparr>instructions := instructions c @
          (op # concat (map (\<lambda>x. [word_of_int (drop_bit 8 x), word_of_int x]) operands))\<rparr>"

text \<open>
  \<open>Compile\<close>: the type switch selects a case by the dynamic type of the node, so a
  nil pointer of type \<open>*ast.Program\<close>, \<open>*ast.InfixExpression\<close> or
  \<open>*ast.IntegerLiteral\<close> enters the case of its type, where the first thing read
  is a field of the node (\<open>node.Expression\<close>, \<open>node.Left\<close>, \<open>node.Value\<close>): a
  nil dereference, before the compiler has changed.  The nil interface and a node of
  any other type match no case.
\<close>

fun Compile :: "Compiler \<Rightarrow> Node \<Rightarrow> (error option \<times> Compiler) outcome" where
  "Compile c (Program e) =
     (case Compile c e of
        Panicked x \<Rightarrow> Panicked x
      | Returned (Some err, c1) \<Rightarrow> Returned (Some err, c1)
      | Returned (None, c1) \<Rightarrow> Returned (None, c1))"
| "Compile c (InfixExpression tok left oper right) =
     (case Compile c left of
        Panicked x \<Rightarrow> Panicked x
      | Returned (Some err, c1) \<Rightarrow> Returned (Some err, c1)
      | Returned (None, c1) \<Rightarrow>
          (case Compile c1 right of
             Panicked x \<Rightarrow> Panicked x
           | Returned (Some err, c2) \<Rightarrow> Returned (Some err, c2)
           | Returned (None, c2) \<Rightarrow>
               Returned (None, if oper = ''+'' then emit c2 OpAdd []
                               else if oper = ''-'' then emit c2 OpSub []
                               else c2)))"
| "Compile c (IntegerLiteral tok v) =
     (let c1 = c\<lparr>constants := constants c @ [Int64 v]\<rparr>
      in Returned (None, emit c1 OpConstant [int (length (constants c1)) - 1]))"
| "Compile c (NilPointer t) = Panicked NilDereference"
| "Compile c NilNode = Returned (None, c)"
| "Compile c OtherNode = Returned (None, c)"

definition Bytecode_of :: "Compiler \<Rightarrow> Bytecode" where
  "Bytecode_of c = \<lparr>Instructions = instructions c, Constants = constants c\<rparr>"

section \<open>Virtual machine (package vm)\<close>

definition StackSize :: int where "StackSize = 2048"

record VM =
  bytecode :: Bytecode
  stack :: "val list"
  sp :: int

definition New_VM :: "Bytecode \<Rightarrow> VM" where
  "New_VM bc = \<lparr>bytecode = bc, stack = replicate (nat StackSize) Nil, sp = 0\<rparr>"

text \<open>Indexing a slice panics out of range.\<close>

definition index :: "'a list \<Rightarrow> int \<Rightarrow> 'a outcome" where
  "index xs i =
     (if 0 \<le> i \<and> i < int (length xs) then Returned (xs ! nat i)
      else Panicked IndexOutOfRange)"

definition pop :: "VM \<Rightarrow> (val \<times> VM) outcome" where
  "pop vm =
     (if sp vm = 0 then Returned (Nil, vm)
      else let vm1 = vm\<lparr>sp := sp vm - 1\<rparr>
           in (case index (stack vm1) (sp vm1) of
                 Panicked e \<Rightarrow> Panicked e
               | Returned v \<Rightarrow> Returned (v, vm1)))"

definition push :: "VM \<Rightarrow> val \<Rightarrow> (error option \<times> VM) outcome" where
  "push vm v =
     (if sp vm \<ge> StackSize then Returned (Some ''stack overflow'', vm)
      else if 0 \<le> sp vm \<and> sp vm < int (length (stack vm))
      then Returned (None, vm\<lparr>stack := (stack vm)[nat (sp vm) := v], sp := sp vm + 1\<rparr>)
      else Panicked IndexOutOfRange)"

definition StackTop :: "VM \<Rightarrow> val outcome" where
  "StackTop vm = (if sp vm = 0 then Returned Nil else index (stack vm) (sp vm - 1))"

text \<open>
  One iteration of the loop of \<open>Run\<close>, entered with \<open>ip < len(Instructions)\<close>: the
  iteration ends the loop with the error of a failed push, panics, or goes on with a new
  machine state and instruction pointer.  The type assertion \<open>.(int64)\<close> panics on
  every value that is not an \<open>int64\<close>.  An opcode other than the three known ones
  matches no case of the switch.
\<close>

datatype iteration = Continue VM nat | Return "error option" VM | Panic panic

text \<open>The two operand bytes of a load-constant instruction: \<open>int(hi)<<8 | int(lo)\<close>.\<close>

definition operand :: "byte \<Rightarrow> byte \<Rightarrow> int" where
  "operand hi lo = or (push_bit 8 (uint hi)) (uint lo)"

definition type_assert_int64 :: "val \<Rightarrow> int64 outcome" where
  "type_assert_int64 v = (case v of Int64 n \<Rightarrow> Returned n | _ \<Rightarrow> Panicked (TypeAssertion v))"

definition after_push :: "(error option \<times> VM) outcome \<Rightarrow> nat \<Rightarrow> iteration" where
  "after_push r ip =
     (case r of
        Panicked e \<Rightarrow> Panic e
      | Returned (Some err, vm1) \<Rightarrow> Return (Some err) vm1
      | Returned (None, vm1) \<Rightarrow> Continue vm1 ip)"

definition loop_body :: "VM \<Rightarrow> nat \<Rightarrow> iteration" where
  "loop_body vm ip0 =
     (let ins = Instructions (bytecode vm);
          op = ins ! ip0;
          ip = ip0 + 1
      in if op = OpConstant then
           (case index ins (int ip) of
              Panicked e \<Rightarrow> Panic e
            | Returned hi \<Rightarrow>
                (case index ins (int ip + 1) of
                   Panicked e \<Rightarrow> Panic e
                 | Returned lo \<Rightarrow>
                     (let constIndex = operand hi lo
                      in case index (Constants (bytecode vm)) constIndex of
                           Panicked e \<Rightarrow> Panic e
                         | Returned k \<Rightarrow> after_push (push vm k) (ip + 2))))
         else if op = OpAdd \<or> op = OpSub then
           (case pop vm of
              Panicked e \<Rightarrow> Panic e
            | Returned (r, vm1) \<Rightarrow>
                (case type_assert_int64 r of
                   Panicked e \<Rightarrow> Panic e
                 | Returned right \<Rightarrow>
                     (case pop vm1 of
                        Panicked e \<Rightarrow> Panic e
                      | Returned (l, vm2) \<Rightarrow>
                          (case type_assert_int64 l of
                             Panicked e \<Rightarrow> Panic e
                           | Returned left \<Rightarrow>
                               (let result = (if op = OpAdd then left + right
                                              else left - right)
                                in after_push (push vm2 (Int64 result)) ip)))))
         else Continue vm ip)"

lemma push_bytecode: "push vm v = Returned (e, vm1) \<Longrightarrow> bytecode vm1 = bytecode vm"
  by (auto simp: push_def split: if_splits)

lemma pop_bytecode: "pop vm = Returned (v, vm1) \<Longrightarrow> bytecode vm1 = bytecode vm"
  by (auto simp: pop_def Let_def split: if_splits outcome.splits)

lemma after_push_Continue:
  "after_push r ip = Continue vm1 ip1 \<Longrightarrow> ip1 = ip \<and> r = Returned (None, vm1)"
  by (auto simp: after_push_def split: outcome.splits option.splits prod.splits)

lemma loop_body_Continue:
  assumes "loop_body vm ip = Continue vm1 ip1"
  shows "ip < ip1 \<and> bytecode vm1 = bytecode vm"
  using assms
  apply (auto simp: loop_body_def Let_def split: if_splits outcome.splits prod.splits
              dest!: after_push_Continue dest: push_bytecode)
   apply (metis push_bytecode pop_bytecode)+
  done

function run_loop :: "VM \<Rightarrow> nat \<Rightarrow> (error option \<times> VM) outcome" where
  "run_loop vm ip =
     (if ip < length (Instructions (bytecode vm)) then
        (case loop_body vm ip of
           Continue vm1 ip1 \<Rightarrow> run_loop vm1 ip1
         | Return err vm1 \<Rightarrow> Returned (err, vm1)
         | Panic e \<Rightarrow> Panicked e)
      else Returned (None, vm))"
  by pat_completeness auto
termination
  by (relation "measure (\<lambda>(vm, ip). length (Instructions (bytecode vm)) - ip)")
     (auto dest: loop_body_Continue)

declare run_loop.simps [simp del]

definition Run :: "VM \<Rightarrow> (error option \<times> VM) outcome" where
  "Run vm = run_loop vm 0"

section \<open>Parser (package parser)\<close>

text \<open>
  \<open>strconv.ParseInt(s, 0, 64)\<close> belongs to the Go standard library.  It is given here
  as the library documents and implements it for base 0 and 64 bits: an optional sign,
  then the base taken from the prefix (\<open>0b\<close>, \<open>0o\<close>, \<open>0x\<close>, a leading \<open>0\<close> for
  octal, decimal otherwise), underscores as digit separators, a syntax error for an
  empty or malformed text and a range error for a value outside \<open>int64\<close>.  The value
  that the library returns beside an error is not kept: the parser reads the error only.
\<close>

datatype num_error = ErrSyntax | ErrRange

definition lower :: "char \<Rightarrow> char" where
  "lower c = char_of (or (of_char c :: nat) 0x20)"

definition digit_value :: "char \<Rightarrow> int option" where
  "digit_value c =
     (if IsDigit c then Some ((of_char c :: int) - 0x30)
      else if 0x61 \<le> (of_char (lower c) :: nat) \<and> (of_char (lower c) :: nat) \<le> 0x7A
      then Some ((of_char (lower c) :: int) - 0x61 + 10)
      else None)"

fun ParseUint_loop :: "int \<Rightarrow> int \<Rightarrow> string \<Rightarrow> int \<Rightarrow> bool \<Rightarrow> num_error + (int \<times> bool)" where
  "ParseUint_loop base cutoff [] n underscores = Inr (n, underscores)"
| "ParseUint_loop base cutoff (c # cs) n underscores =
     (if c = CHR ''_'' then ParseUint_loop base cutoff cs n True
      else case digit_value c of
             None \<Rightarrow> Inl ErrSyntax
           | Some d \<Rightarrow>
               if d \<ge> base then Inl ErrSyntax
               else if n \<ge> cutoff then Inl ErrRange
               else let n0 = (n * base) mod 2 ^ 64;
                        n1 = (n0 + d) mod 2 ^ 64
                    in if n1 < n0 \<or> n1 > 2 ^ 64 - 1 then Inl ErrRange
                       else ParseUint_loop base cutoff cs n1 underscores)"

fun underscoreOK_loop :: "bool \<Rightarrow> char \<Rightarrow> string \<Rightarrow> bool" where
  "underscoreOK_loop hex saw [] = (saw \<noteq> CHR ''_'')"
| "underscoreOK_loop hex saw (c # cs) =
     (if IsDigit c \<or> (hex \<and> 0x61 \<le> (of_char (lower c) :: nat) \<and> (of_char (lower c) :: nat) \<le> 0x66)
      then underscoreOK_loop hex (CHR ''0'') cs
      else if c = CHR ''_'' then
        (if saw \<noteq> CHR ''0'' then False else underscoreOK_loop hex (CHR ''_'') cs)
      else if saw = CHR ''_'' then False
      else underscoreOK_loop hex (CHR ''!'') cs)"

definition underscoreOK :: "string \<Rightarrow> bool" where
  "underscoreOK s =
     (let s1 = (if length s \<ge> 1 \<and> (hd s = CHR ''-'' \<or> hd s = CHR ''+'') then tl s else s)
      in if length s1 \<ge> 2 \<and> hd s1 = CHR ''0''
            \<and> (lower (s1 ! 1) = CHR ''b'' \<or> lower (s1 ! 1) = CHR ''o'' \<or> lower (s1 ! 1) = CHR ''x'')
         then underscoreOK_loop (lower (s1 ! 1) = CHR ''x'') (CHR ''0'') (drop 2 s1)
         else underscoreOK_loop False (CHR ''^'') s1)"

definition ParseUint :: "string \<Rightarrow> num_error + int" where
  "ParseUint s =
     (if s = [] then Inl ErrSyntax
      else let (base, s1) =
                 (if hd s = CHR ''0'' then
                    (if length s \<ge> 3 \<and> lower (s ! 1) = CHR ''b'' then (2, drop 2 s)
                     else if length s \<ge> 3 \<and> lower (s ! 1) = CHR ''o'' then (8, drop 2 s)
                     else if length s \<ge> 3 \<and> lower (s ! 1) = CHR ''x'' then (16, drop 2 s)
                     else (8, drop 1 s))
                  else (10, s));
               cutoff = (2 ^ 64 - 1) div base + 1
           in case ParseUint_loop base cutoff s1 0 False of
                Inl e \<Rightarrow> Inl e
              | Inr (n, underscores) \<Rightarrow>
                  if underscores \<and> \<not> underscoreOK s then Inl ErrSyntax else Inr n)"

definition ParseInt :: "string \<Rightarrow> num_error + int64" where
  "ParseInt s =
     (if s = [] then Inl ErrSyntax
      else let neg = (hd s = CHR ''-'');
               s1 = (if hd s = CHR ''+'' \<or> hd s = CHR ''-'' then tl s else s)
           in case ParseUint s1 of
                Inl e \<Rightarrow> Inl e
              | Inr un \<Rightarrow>
                  if \<not> neg \<and> un \<ge> 2 ^ 63 then Inl ErrRange
                  else if neg \<and> un > 2 ^ 63 then Inl ErrRange
                  else Inr (if neg then - word_of_int un else word_of_int un))"


text \<open>
  An entry of the error list: the message \<open>could not parse %q as integer\<close>, kept as
  the text it quotes.  The field \<open>l\<close> of the parser is written \<open>lexer\<close>.
\<close>

datatype message = CouldNotParseAsInteger string

record Parser =
  lexer :: Lexer
  errors :: "message list"
  curToken :: Token
  peekToken :: Token

definition nextToken :: "Parser \<Rightarrow> Parser outcome" where
  "nextToken p =
     (case NextToken (lexer p) of
        Panicked e \<Rightarrow> Panicked e
      | Returned (t, l1) \<Rightarrow> Returned (p\<lparr>curToken := peekToken p, peekToken := t, lexer := l1\<rparr>))"

definition zero_Token :: Token where
  "zero_Token = \<lparr>Type = PUBLIC, Value = [], Line = 0, Column = 0\<rparr>"

definition New_Parser :: "Lexer \<Rightarrow> Parser outcome" where
  "New_Parser l =
     (case nextToken \<lparr>lexer = l, errors = [], curToken = zero_Token, peekToken = zero_Token\<rparr> of
        Panicked e \<Rightarrow> Panicked e
      | Returned p1 \<Rightarrow> nextToken p1)"

definition parseIntegerLiteral :: "Parser \<Rightarrow> Node \<times> Parser" where
  "parseIntegerLiteral p =
     (case ParseInt (Value (curToken p)) of
        Inl err \<Rightarrow> (NilNode, p\<lparr>errors := errors p @ [CouldNotParseAsInteger (Value (curToken p))]\<rparr>)
      | Inr v \<Rightarrow> (IntegerLiteral (curToken p) v, p))"

definition parseInfixExpression :: "Parser \<Rightarrow> Node \<Rightarrow> (Node \<times> Parser) outcome" where
  "parseInfixExpression p left =
     (case nextToken p of
        Panicked e \<Rightarrow> Panicked e
      | Returned p1 \<Rightarrow>
          (let (right, p2) = parseIntegerLiteral p1
           in Returned (InfixExpression (curToken p) left (Value (curToken p)) right, p2)))"

text \<open>
  The loop of \<open>parseExpression\<close> ends because every token other than EOF that
  \<open>NextToken\<close> returns brings the tokenizer closer to the end of the input.
\<close>

lemma remaining_le: "remaining l \<le> Suc (length (input l) - pos l)"
  by (simp add: remaining_def)

lemma remaining_nonzero: "currentChar l \<noteq> CHR 0x00 \<Longrightarrow> remaining l = Suc (length (input l) - pos l)"
  by (simp add: remaining_def)

lemma advance_pos_input: "pos (advance l) = Suc (pos l)" "input (advance l) = input l"
  by (simp_all add: advance_def Let_def)

lemma skipWhitespace_remaining: "remaining (skipWhitespace l) \<le> remaining l"
proof (induction l rule: skipWhitespace.induct)
  case (1 l)
  show ?case
  proof (cases "IsSpace (currentChar l)")
    case True
    then have "remaining (advance l) < remaining l"
      by (simp add: advance_remaining IsSpace_not_NUL)
    then show ?thesis using "1.IH" [OF True] True by (simp add: skipWhitespace.simps [of l])
  next
    case False
    then show ?thesis by (simp add: skipWhitespace.simps [of l])
  qed
qed

lemma readIdentifier_loop_remaining: "remaining (readIdentifier_loop l) \<le> remaining l"
proof (induction l rule: readIdentifier_loop.induct)
  case (1 l)
  show ?case
  proof (cases "IsLetter (currentChar l) \<or> IsDigit (currentChar l)")
    case True
    then have "remaining (advance l) < remaining l"
      by (auto simp: advance_remaining IsLetter_not_NUL IsDigit_not_NUL)
    then show ?thesis using "1.IH" [OF True] True by (simp add: readIdentifier_loop.simps [of l])
  next
    case False
    then show ?thesis by (simp add: readIdentifier_loop.simps [of l])
  qed
qed

lemma readNumber_loop_remaining: "remaining (readNumber_loop l) \<le> remaining l"
proof (induction l rule: readNumber_loop.induct)
  case (1 l)
  show ?case
  proof (cases "IsDigit (currentChar l)")
    case True
    then have "remaining (advance l) < remaining l"
      by (simp add: advance_remaining IsDigit_not_NUL)
    then show ?thesis using "1.IH" [OF True] True by (simp add: readNumber_loop.simps [of l])
  next
    case False
    then show ?thesis by (simp add: readNumber_loop.simps [of l])
  qed
qed

lemma readIdentifier_remaining:
  "IsLetter (currentChar l) \<Longrightarrow> readIdentifier l = Returned (t, l1) \<Longrightarrow> remaining l1 < remaining l"
proof -
  assume a: "IsLetter (currentChar l)" and r: "readIdentifier l = Returned (t, l1)"
  have "l1 = readIdentifier_loop l"
    using r by (auto simp: readIdentifier_def Let_def split: outcome.splits)
  also have "\<dots> = readIdentifier_loop (advance l)"
    using a by (simp add: readIdentifier_loop.simps [of l])
  finally have "remaining l1 \<le> remaining (advance l)"
    using readIdentifier_loop_remaining [of "advance l"] by simp
  then show ?thesis using advance_remaining [of l] IsLetter_not_NUL [OF a] by simp
qed

lemma readNumber_remaining:
  "IsDigit (currentChar l) \<Longrightarrow> readNumber l = Returned (t, l1) \<Longrightarrow> remaining l1 < remaining l"
proof -
  assume a: "IsDigit (currentChar l)" and r: "readNumber l = Returned (t, l1)"
  have "l1 = readNumber_loop l"
    using r by (auto simp: readNumber_def Let_def split: outcome.splits)
  also have "\<dots> = readNumber_loop (advance l)"
    using a by (simp add: readNumber_loop.simps [of l])
  finally have "remaining l1 \<le> remaining (advance l)"
    using readNumber_loop_remaining [of "advance l"] by simp
  then show ?thesis using advance_remaining [of l] IsDigit_not_NUL [OF a] by simp
qed

lemma readString_loop_remaining:
  "readString_loop l v = Returned (v1, l1) \<Longrightarrow> remaining l1 \<le> remaining l"
proof (induction l v rule: readString_loop.induct)
  case (1 l v)
  show ?case
  proof (cases "currentChar l \<noteq> CHR 0x22 \<and> currentChar l \<noteq> CHR 0x00")
    case False
    with "1.prems" show ?thesis by (simp add: readString_loop.simps [of l v])
  next
    case True
    then have a1: "remaining (advance l) < remaining l" by (simp add: advance_remaining)
    show ?thesis
    proof (cases "currentChar l = CHR 0x5C")
      case False
      then have "readString_loop (advance l) (v @ rune_string (currentChar l)) = Returned (v1, l1)"
        using "1.prems" True by (simp add: readString_loop.simps [of l v])
      then show ?thesis using "1.IH"(6) [OF True False] a1 by simp
    next
      case bs: True
      let ?l1 = "advance l"
      have a2: "remaining (advance ?l1) < remaining l" if "currentChar ?l1 \<noteq> CHR 0x00"
        using advance_remaining [OF that] a1 by simp
      consider (n) "currentChar ?l1 = CHR ''n''"
        | (t) "currentChar ?l1 \<noteq> CHR ''n''" "currentChar ?l1 = CHR ''t''"
        | (r) "currentChar ?l1 \<noteq> CHR ''n''" "currentChar ?l1 \<noteq> CHR ''t''" "currentChar ?l1 = CHR ''r''"
        | (q) "currentChar ?l1 \<noteq> CHR ''n''" "currentChar ?l1 \<noteq> CHR ''t''" "currentChar ?l1 \<noteq> CHR ''r''"
              "currentChar ?l1 = CHR 0x22"
        | (b) "currentChar ?l1 \<noteq> CHR ''n''" "currentChar ?l1 \<noteq> CHR ''t''" "currentChar ?l1 \<noteq> CHR ''r''"
              "currentChar ?l1 \<noteq> CHR 0x22" "currentChar ?l1 = CHR 0x5C"
        | (other) "currentChar ?l1 \<noteq> CHR ''n''" "currentChar ?l1 \<noteq> CHR ''t''" "currentChar ?l1 \<noteq> CHR ''r''"
              "currentChar ?l1 \<noteq> CHR 0x22" "currentChar ?l1 \<noteq> CHR 0x5C"
        by blast
      then show ?thesis
      proof cases
        case n
        then have "readString_loop (advance ?l1) (v @ [CHR 0x0A]) = Returned (v1, l1)"
          using "1.prems" True bs by (simp add: readString_loop.simps [of l v] Let_def)
        then show ?thesis using "1.IH"(1) [OF True bs refl n] a2 n by simp
      next
        case t
        then have "readString_loop (advance ?l1) (v @ [CHR 0x09]) = Returned (v1, l1)"
          using "1.prems" True bs by (simp add: readString_loop.simps [of l v] Let_def)
        then show ?thesis using "1.IH"(2) [OF True bs refl t] a2 t by simp
      next
        case r
        then have "readString_loop (advance ?l1) (v @ [CHR 0x0D]) = Returned (v1, l1)"
          using "1.prems" True bs by (simp add: readString_loop.simps [of l v] Let_def)
        then show ?thesis using "1.IH"(3) [OF True bs refl r] a2 r by simp
      next
        case q
        then have "readString_loop (advance ?l1) (v @ [CHR 0x22]) = Returned (v1, l1)"
          using "1.prems" True bs by (simp add: readString_loop.simps [of l v] Let_def)
        then show ?thesis using "1.IH"(4) [OF True bs refl q] a2 q by simp
      next
        case b
        then have "readString_loop (advance ?l1) (v @ [CHR 0x5C]) = Returned (v1, l1)"
          using "1.prems" True bs by (simp add: readString_loop.simps [of l v] Let_def)
        then show ?thesis using "1.IH"(5) [OF True bs refl b] a2 b by simp
      next
        case other
        then show ?thesis
          using "1.prems" True bs by (simp add: readString_loop.simps [of l v] Let_def)
      qed
    qed
  qed
qed


lemma readString_remaining:
  "currentChar l \<noteq> CHR 0x00 \<Longrightarrow> readString l = Returned (t, l1) \<Longrightarrow> remaining l1 < remaining l"
proof -
  assume a: "currentChar l \<noteq> CHR 0x00" and r: "readString l = Returned (t, l1)"
  obtain v l2 where loop: "readString_loop (advance l) [] = Returned (v, l2)"
    and q: "currentChar l2 = CHR 0x22" and l1: "l1 = advance l2"
    using r by (auto simp: readString_def Let_def split: outcome.splits prod.splits if_splits)
  have "remaining l1 < remaining l2" using q l1 by (simp add: advance_remaining)
  also have "\<dots> \<le> remaining (advance l)" using readString_loop_remaining [OF loop] .
  also have "\<dots> < remaining l" using a by (simp add: advance_remaining)
  finally show ?thesis .
qed

lemma readChar_remaining:
  "currentChar l \<noteq> CHR 0x00 \<Longrightarrow> readChar l = Returned (t, l1) \<Longrightarrow> remaining l1 < remaining l"
proof -
  assume a: "currentChar l \<noteq> CHR 0x00" and r: "readChar l = Returned (t, l1)"
  let ?l1 = "advance l"
  show ?thesis
  proof (cases "currentChar ?l1 = CHR 0x5C")
    case True
    let ?l2 = "advance ?l1"
    have e: "currentChar ?l2 \<noteq> CHR 0x00" and q: "currentChar (advance ?l2) = CHR 0x27"
      and l1: "l1 = advance (advance ?l2)"
      using r True by (auto simp: readChar_def Let_def split: if_splits)
    have "remaining l1 < remaining (advance ?l2)" using q l1 by (simp add: advance_remaining)
    also have "\<dots> < remaining ?l2" using e by (simp add: advance_remaining)
    also have "\<dots> < remaining ?l1" using True by (simp add: advance_remaining)
    also have "\<dots> < remaining l" using a by (simp add: advance_remaining)
    finally show ?thesis .
  next
    case False
    let ?l3 = "advance ?l1"
    have q: "currentChar ?l3 = CHR 0x27" and l1: "l1 = advance ?l3"
      using r False by (auto simp: readChar_def Let_def split: if_splits)
    have "remaining l1 < remaining ?l3" using q l1 by (simp add: advance_remaining)
    also have "\<dots> \<le> Suc (length (input ?l3) - pos ?l3)" by (rule remaining_le)
    also have "\<dots> \<le> Suc (length (input l) - pos l)" by (simp add: advance_pos_input)
    also have "\<dots> = remaining l" using a by (simp add: remaining_nonzero)
    finally show ?thesis .
  qed
qed

lemma operator_token_remaining:
  "currentChar l \<noteq> CHR 0x00 \<Longrightarrow> operator_token l = Returned (t, l1) \<Longrightarrow>
   remaining l1 < remaining l"
proof -
  assume a: "currentChar l \<noteq> CHR 0x00" and r: "operator_token l = Returned (t, l1)"
  have 1: "remaining (advance l) < remaining l" using a by (simp add: advance_remaining)
  have 2: "remaining (advance (advance l)) < remaining l" if "currentChar (advance l) = CHR ''=''"
    using advance_remaining [of "advance l"] that 1 by simp
  have "l1 = advance l \<or> (currentChar (advance l) = CHR ''='' \<and> l1 = advance (advance l))"
    using r by (auto simp: operator_token_def Let_def split: if_splits)
  then show ?thesis using 1 2 by auto
qed

lemma NextToken_remaining:
  "NextToken l = Returned (t, l1) \<Longrightarrow>
   remaining l1 \<le> remaining l \<and> (Type t = EOF \<or> remaining l1 < remaining l)"
proof (induction l rule: NextToken.induct)
  case (1 l)
  show ?case
  proof (cases "currentChar l = CHR 0x00")
    case True
    with "1.prems" show ?thesis by (auto simp: NextToken.simps [of l])
  next
    case False
    show ?thesis
    proof (cases "IsSpace (currentChar l)")
      case True
      with False "1.prems" have "NextToken (skipWhitespace l) = Returned (t, l1)"
        by (simp add: NextToken.simps [of l])
      then have "remaining l1 \<le> remaining (skipWhitespace l)
                 \<and> (Type t = EOF \<or> remaining l1 < remaining (skipWhitespace l))"
        using "1.IH" [OF False True] by blast
      then show ?thesis using skipWhitespace_remaining [of l] by auto
    next
      case sp: False
      have "remaining l1 < remaining l"
        using "1.prems" False sp readChar_remaining [OF False, of t l1]
          readString_remaining [OF False, of t l1] readIdentifier_remaining [of l t l1]
          readNumber_remaining [of l t l1] operator_token_remaining [OF False, of t l1]
        by (auto simp: NextToken.simps [of l] split: if_splits)
      then show ?thesis by simp
    qed
  qed
qed

lemma nextToken_remaining:
  assumes "nextToken p = Returned p1"
  shows "remaining (lexer p1) \<le> remaining (lexer p)
         \<and> (Type (peekToken p1) = EOF \<or> remaining (lexer p1) < remaining (lexer p))"
proof -
  obtain t l1 where n: "NextToken (lexer p) = Returned (t, l1)"
    and p1: "p1 = p\<lparr>curToken := peekToken p, peekToken := t, lexer := l1\<rparr>"
    using assms by (auto simp: nextToken_def split: outcome.splits prod.splits)
  show ?thesis using NextToken_remaining [OF n] p1 by simp
qed

lemma parseIntegerLiteral_lexer:
  "parseIntegerLiteral p = (e, p1) \<Longrightarrow> lexer p1 = lexer p \<and> peekToken p1 = peekToken p"
  by (auto simp: parseIntegerLiteral_def split: sum.splits)

definition parse_measure :: "Parser \<Rightarrow> nat" where
  "parse_measure p =
     2 * remaining (lexer p)
     + (if Type (peekToken p) = PLUS \<or> Type (peekToken p) = MINUS then 1 else 0)"

lemma parse_step_measure:
  assumes "Type (peekToken p) = PLUS \<or> Type (peekToken p) = MINUS"
    and "nextToken p = Returned p1" "parseInfixExpression p1 left = Returned (left1, p2)"
  shows "parse_measure p2 < parse_measure p"
proof -
  obtain p1' right where n2: "nextToken p1 = Returned p1'"
    and pl: "parseIntegerLiteral p1' = (right, p2)"
    using assms(3)
    by (auto simp: parseInfixExpression_def Let_def split: outcome.splits prod.splits)
  have eq: "lexer p2 = lexer p1'" "peekToken p2 = peekToken p1'"
    using parseIntegerLiteral_lexer [OF pl] by simp_all
  have r1: "remaining (lexer p1) \<le> remaining (lexer p)"
    using nextToken_remaining [OF assms(2)] by simp
  have r2: "remaining (lexer p1') \<le> remaining (lexer p1)"
    "Type (peekToken p1') = EOF \<or> remaining (lexer p1') < remaining (lexer p1)"
    using nextToken_remaining [OF n2] by simp_all
  show ?thesis
    using assms(1) r1 r2 unfolding parse_measure_def eq by auto
qed

function parseExpression_loop :: "Parser \<Rightarrow> Node \<Rightarrow> (Node \<times> Parser) outcome" where
  "parseExpression_loop p left =
     (if Type (peekToken p) = PLUS \<or> Type (peekToken p) = MINUS then
        (case nextToken p of
           Panicked e \<Rightarrow> Panicked e
         | Returned p1 \<Rightarrow>
             (case parseInfixExpression p1 left of
                Panicked e \<Rightarrow> Panicked e
              | Returned (left1, p2) \<Rightarrow> parseExpression_loop p2 left1))
      else Returned (left, p))"
  by pat_completeness auto
termination
  by (relation "measure (\<lambda>(p, left). parse_measure p)") (auto intro: parse_step_measure)

declare parseExpression_loop.simps [simp del]

definition parseExpression :: "Parser \<Rightarrow> (Node \<times> Parser) outcome" where
  "parseExpression p = (let (left, p1) = parseIntegerLiteral p in parseExpression_loop p1 left)"

definition ParseProgram :: "Parser \<Rightarrow> (Node \<times> Parser) outcome" where
  "ParseProgram p =
     (case parseExpression p of
        Panicked e \<Rightarrow> Panicked e
      | Returned (e, p1) \<Rightarrow> Returned (Program e, p1))"

section \<open>The pipeline (function main)\<close>

text \<open>
  \<open>main\<close> from the source text on: what it prints is the result here, the parse
  errors, the error of the compiler or of the machine, or the value on top of the stack.
\<close>

datatype main_result =
    ParseErrors "message list"
  | CompileFailed error
  | RunFailed error
  | Result val

definition main :: "string \<Rightarrow> main_result outcome" where
  "main src =
     (case New_Parser (New_Lexer src) of
        Panicked e \<Rightarrow> Panicked e
      | Returned p \<Rightarrow>
          (case ParseProgram p of
             Panicked e \<Rightarrow> Panicked e
           | Returned (program, p1) \<Rightarrow>
               if length (errors p1) \<noteq> 0 then Returned (ParseErrors (errors p1))
               else (case Compile New_Compiler program of
                       Panicked e \<Rightarrow> Panicked e
                     | Returned (Some err, c) \<Rightarrow> Returned (CompileFailed err)
                     | Returned (None, c) \<Rightarrow>
                         (case Run (New_VM (Bytecode_of c)) of
                            Panicked e \<Rightarrow> Panicked e
                          | Returned (Some err, vm) \<Rightarrow> Returned (RunFailed err)
                          | Returned (None, vm) \<Rightarrow>
                              (case StackTop vm of
                                 Panicked e \<Rightarrow> Panicked e
                               | Returned v \<Rightarrow> Returned (Result v))))))"

section \<open>What the compiler emits\<close>

text \<open>
  The load-constant instruction that \<open>emit\<close> encodes for pool position \<open>k\<close>, the
  literal values of a tree in the order the compiler meets them, and the bytes the
  compiler appends for a tree when the pool already holds \<open>k\<close> constants.
\<close>

definition load_const :: "nat \<Rightarrow> byte list" where
  "load_const k = [OpConstant, word_of_int (drop_bit 8 (int k)), word_of_int (int k)]"

fun lits :: "Node \<Rightarrow> int64 list" where
  "lits (Program e) = lits e"
| "lits (InfixExpression tok left oper right) = lits left @ lits right"
| "lits (IntegerLiteral tok v) = [v]"
| "lits (NilPointer t) = []"
| "lits NilNode = []"
| "lits OtherNode = []"

fun code :: "nat \<Rightarrow> Node \<Rightarrow> byte list" where
  "code k (Program e) = code k e"
| "code k (InfixExpression tok left oper right) =
     code k left @ code (k + length (lits left)) right @
     (if oper = ''+'' then [OpAdd] else if oper = ''-'' then [OpSub] else [])"
| "code k (IntegerLiteral tok v) = load_const k"
| "code k (NilPointer t) = []"
| "code k NilNode = []"
| "code k OtherNode = []"

text \<open>
  The operands of all load-constant instructions of an instruction stream, read front to
  back the way \<open>Run\<close> walks it.
\<close>

fun load_operands :: "byte list \<Rightarrow> int list" where
  "load_operands (op # hi # lo # rest) =
     (if op = OpConstant then operand hi lo # load_operands rest
      else load_operands (hi # lo # rest))"
| "load_operands (op # rest) = (if op = OpConstant then [] else load_operands rest)"
| "load_operands [] = []"

text \<open>
  A tree that holds no nil pointer of the three pointer types, at the root or below.
\<close>

fun no_nil_pointer :: "Node \<Rightarrow> bool" where
  "no_nil_pointer (Program e) = no_nil_pointer e"
| "no_nil_pointer (InfixExpression tok left oper right) =
     (no_nil_pointer left \<and> no_nil_pointer right)"
| "no_nil_pointer (IntegerLiteral tok v) = True"
| "no_nil_pointer (NilPointer t) = False"
| "no_nil_pointer NilNode = True"
| "no_nil_pointer OtherNode = True"

text \<open>
  The tree the parser builds for \<open>1+1+...+1\<close> with \<open>n\<close> operators on one line, and
  the tree for \<open>12 + 7 - 5\<close>.
\<close>

fun sum_tree :: "nat \<Rightarrow> Node" where
  "sum_tree 0 = IntegerLiteral \<lparr>Type = NUMBER, Value = ''1'', Line = 1, Column = 1\<rparr> 1"
| "sum_tree (Suc n) =
     InfixExpression \<lparr>Type = PLUS, Value = ''+'', Line = 1, Column = 2 * n + 2\<rparr>
       (sum_tree n) ''+''
       (IntegerLiteral \<lparr>Type = NUMBER, Value = ''1'', Line = 1, Column = 2 * n + 3\<rparr> 1)"

definition tree_12_7_5 :: Node where
  "tree_12_7_5 =
     InfixExpression \<lparr>Type = MINUS, Value = ''-'', Line = 1, Column = 8\<rparr>
       (InfixExpression \<lparr>Type = PLUS, Value = ''+'', Line = 1, Column = 4\<rparr>
          (IntegerLiteral \<lparr>Type = NUMBER, Value = ''12'', Line = 1, Column = 1\<rparr> 12)
          ''+''
          (IntegerLiteral \<lparr>Type = NUMBER, Value = ''7'', Line = 1, Column = 6\<rparr> 7))
       ''-''
       (IntegerLiteral \<lparr>Type = NUMBER, Value = ''5'', Line = 1, Column = 10\<rparr> 5)"

text \<open>
  The tree the parser builds for \<open>7+0+...+0\<close> with \<open>n\<close> operators on one line, and
  the tree for \<open>7+0+...+0+1\<close> with 65537 literals: 7, then 65535 times 0, then 1.
\<close>

fun zeros_tree :: "nat \<Rightarrow> Node" where
  "zeros_tree 0 = IntegerLiteral \<lparr>Type = NUMBER, Value = ''7'', Line = 1, Column = 1\<rparr> 7"
| "zeros_tree (Suc n) =
     InfixExpression \<lparr>Type = PLUS, Value = ''+'', Line = 1, Column = 2 * n + 2\<rparr>
       (zeros_tree n) ''+''
       (IntegerLiteral \<lparr>Type = NUMBER, Value = ''0'', Line = 1, Column = 2 * n + 3\<rparr> 0)"

definition tree_65537 :: Node where
  "tree_65537 =
     InfixExpression \<lparr>Type = PLUS, Value = ''+'', Line = 1, Column = 131072\<rparr>
       (zeros_tree 65535) ''+''
       (IntegerLiteral \<lparr>Type = NUMBER, Value = ''1'', Line = 1, Column = 131073\<rparr> 1)"

section \<open>Running the loop step by step\<close>

text \<open>
  The machine state and the instruction pointer after \<open>n\<close> iterations of the loop of
  \<open>Run\<close>, when the loop makes that many; \<open>within\<close> bounds the stack pointer over the
  first \<open>n\<close> iterations.  Expression trees built from infix \<open>+\<close>/\<open>-\<close> nodes and
  integer literals alone, the stack depth their code needs, and the value their code
  computes from a constant pool \<open>cs\<close> when the first literal has pool position \<open>k\<close>.
\<close>
fun run_steps :: "nat \<Rightarrow> VM \<Rightarrow> nat \<Rightarrow> (VM \<times> nat) option" where
  "run_steps 0 vm ip = Some (vm, ip)"
| "run_steps (Suc n) vm ip =
     (if ip < length (Instructions (bytecode vm)) then
        (case loop_body vm ip of
           Continue vm1 ip1 \<Rightarrow> run_steps n vm1 ip1
         | Return err vm1 \<Rightarrow> None
         | Panic e \<Rightarrow> None)
      else None)"

fun arith_tree :: "Node \<Rightarrow> bool" where
  "arith_tree (IntegerLiteral tok v) = True"
| "arith_tree (InfixExpression tok left oper right) =
     ((oper = ''+'' \<or> oper = ''-'') \<and> arith_tree left \<and> arith_tree right)"
| "arith_tree (Program e) = False"
| "arith_tree (NilPointer t) = False"
| "arith_tree NilNode = False"
| "arith_tree OtherNode = False"

fun depth :: "Node \<Rightarrow> nat" where
  "depth (IntegerLiteral tok v) = 1"
| "depth (InfixExpression tok left oper right) = max (depth left) (Suc (depth right))"
| "depth (Program e) = depth e"
| "depth (NilPointer t) = 0"
| "depth NilNode = 0"
| "depth OtherNode = 0"

fun is_int64 :: "val \<Rightarrow> bool" where
  "is_int64 (Int64 x) = True"
| "is_int64 Nil = False"
| "is_int64 Other = False"

fun int64_of :: "val \<Rightarrow> int64" where
  "int64_of (Int64 x) = x"
| "int64_of Nil = 0"
| "int64_of Other = 0"

fun loaded :: "val list \<Rightarrow> nat \<Rightarrow> Node \<Rightarrow> int64" where
  "loaded cs k (IntegerLiteral tok v) = int64_of (cs ! (k mod 65536))"
| "loaded cs k (InfixExpression tok left oper right) =
     (if oper = ''+'' then loaded cs k left + loaded cs (k + length (lits left)) right
      else loaded cs k left - loaded cs (k + length (lits left)) right)"
| "loaded cs k (Program e) = loaded cs k e"
| "loaded cs k (NilPointer t) = 0"
| "loaded cs k NilNode = 0"
| "loaded cs k OtherNode = 0"

definition within :: "nat \<Rightarrow> VM \<Rightarrow> nat \<Rightarrow> int \<Rightarrow> int \<Rightarrow> bool" where
  "within n vm ip lo hi =
     (\<forall>m \<le> n. \<forall>vm2 ip2. run_steps m vm ip = Some (vm2, ip2) \<longrightarrow> lo \<le> sp vm2 \<and> sp vm2 \<le> hi)"

section \<open>Additive expressions and their value\<close>

text \<open>
  The trees of the grammar \<open>integer (('+' | '-') integer)*\<close>: a literal, or an infix
  node with operator \<open>+\<close> or \<open>-\<close> whose right operand is a literal and whose left
  operand is such a tree again.  \<open>eval\<close> is the value of a tree over \<open>int64\<close>.
  \<open>Run_error\<close> is what \<open>Run\<close> hands to its caller.  \<open>pushes\<close> counts the
  instructions of a stream that push a value when \<open>Run\<close> walks it (load-constant, add
  and subtract); \<open>pushes_only n\<close> is the program of \<open>n\<close> load-constant
  instructions.
\<close>

fun additive :: "Node \<Rightarrow> bool" where
  "additive (IntegerLiteral tok v) = True"
| "additive (InfixExpression tok left oper (IntegerLiteral tok1 v)) =
     ((oper = ''+'' \<or> oper = ''-'') \<and> additive left)"
| "additive (InfixExpression tok left oper (InfixExpression tok1 l1 oper1 r1)) = False"
| "additive (InfixExpression tok left oper (Program e)) = False"
| "additive (InfixExpression tok left oper (NilPointer t)) = False"
| "additive (InfixExpression tok left oper NilNode) = False"
| "additive (InfixExpression tok left oper OtherNode) = False"
| "additive (Program e) = False"
| "additive (NilPointer t) = False"
| "additive NilNode = False"
| "additive OtherNode = False"

fun eval :: "Node \<Rightarrow> int64" where
  "eval (IntegerLiteral tok v) = v"
| "eval (InfixExpression tok left oper right) =
     (if oper = ''+'' then eval left + eval right else eval left - eval right)"
| "eval (Program e) = eval e"
| "eval (NilPointer t) = 0"
| "eval NilNode = 0"
| "eval OtherNode = 0"

definition Run_error :: "VM \<Rightarrow> error option outcome" where
  "Run_error vm =
     (case Run vm of Returned (err, vm1) \<Rightarrow> Returned err | Panicked e \<Rightarrow> Panicked e)"

fun pushes :: "byte list \<Rightarrow> nat" where
  "pushes (op # hi # lo # rest) =
     (if op = OpConstant then Suc (pushes rest)
      else if op = OpAdd \<or> op = OpSub then Suc (pushes (hi # lo # rest))
      else pushes (hi # lo # rest))"
| "pushes (op # rest) =
     (if op = OpConstant then 0
      else if op = OpAdd \<or> op = OpSub then Suc (pushes rest)
      else pushes rest)"
| "pushes [] = 0"

definition pushes_only :: "nat \<Rightarrow> Bytecode" where
  "pushes_only n = \<lparr>Instructions = concat (replicate n (load_const 0)), Constants = [Int64 7]\<rparr>"

text \<open>The compiler after compiling \<open>1+1+...+1\<close> with 1025 literals.\<close>

definition sum_1025 :: Compiler where
  "sum_1025 = \<lparr>instructions = code 0 (sum_tree 1024), constants = map Int64 (lits (sum_tree 1024))\<rparr>"

section \<open>Positions in the input and the escapes of literals\<close>

text \<open>
  \<open>at_input l rest\<close>: the tokenizer \<open>l\<close> has \<open>rest\<close> still to read, and its current
  character is the first character of \<open>rest\<close>, or 0 at the end.  The escapes that the
  switch of \<open>readChar\<close> accepts and those that the switch of \<open>readString\<close> accepts,
  each with the character it stands for.  The body of a string literal is a sequence of
  pieces, a plain character or a backslash and a character; \<open>piece_source\<close> is how a
  piece is written, \<open>piece_value\<close> what it contributes to the value of the token.
\<close>

definition peek0 :: "string \<Rightarrow> char" where
  "peek0 s = (case s of [] \<Rightarrow> CHR 0x00 | c # cs \<Rightarrow> c)"

definition at_input :: "Lexer \<Rightarrow> string \<Rightarrow> bool" where
  "at_input l rest =
     (pos l \<le> length (input l) \<and> drop (pos l) (input l) = rest \<and> currentChar l = peek0 rest)"

definition char_escape :: "char \<Rightarrow> char option" where
  "char_escape = map_of
     [(CHR ''n'', CHR 0x0A), (CHR ''t'', CHR 0x09), (CHR ''r'', CHR 0x0D),
      (CHR 0x27, CHR 0x27), (CHR 0x5C, CHR 0x5C)]"

definition string_escape :: "char \<Rightarrow> char option" where
  "string_escape = map_of
     [(CHR ''n'', CHR 0x0A), (CHR ''t'', CHR 0x09), (CHR ''r'', CHR 0x0D),
      (CHR 0x22, CHR 0x22), (CHR 0x5C, CHR 0x5C)]"

datatype piece = Plain char | Escape char

fun piece_source :: "piece \<Rightarrow> string" where
  "piece_source (Plain c) = [c]"
| "piece_source (Escape e) = [CHR 0x5C, e]"

fun piece_value :: "piece \<Rightarrow> string" where
  "piece_value (Plain c) = rune_string c"
| "piece_value (Escape e) = (case string_escape e of Some d \<Rightarrow> [d] | None \<Rightarrow> [])"

fun piece_ok :: "piece \<Rightarrow> bool" where
  "piece_ok (Plain c) = (c \<noteq> CHR 0x22 \<and> c \<noteq> CHR 0x5C \<and> c \<noteq> CHR 0x00)"
| "piece_ok (Escape e) = (case string_escape e of Some d \<Rightarrow> True | None \<Rightarrow> False)"

text \<open>The tokenizer after reading the input \<open>" "\<close> to its end.\<close>

definition lexer_at_end :: Lexer where
  "lexer_at_end = \<lparr>input = '' '', pos = 1, line = 1, column = 2, currentChar = CHR 0x00\<rparr>"

section \<open>Additive sources\<close>

text \<open>
  A source text made of decimal integer literals, the operators \<open>+\<close> and \<open>-\<close> and
  white space: white space, the first literal, then items, each one white space, an
  operator, white space and a literal, then white space.  \<open>decimal\<close> reads a text of
  digits in base ten.  \<open>literal\<close> holds of a text of digits that has no leading zero,
  unless it is \<open>0\<close> itself, and whose value fits \<open>int64\<close>.  \<open>left_to_right\<close> is
  the evaluation of the literals from left to right over \<open>int64\<close>.  \<open>ahead\<close> says
  where the parser stands before the remaining items: on end of input, or on the
  operator of the next item with the tokenizer just behind it.
\<close>

datatype item = Item (ws_before: string) (item_op: char) (ws_after: string) (item_digits: string)

definition render_item :: "item \<Rightarrow> string" where
  "render_item it = ws_before it @ [item_op it] @ ws_after it @ item_digits it"

definition source :: "string \<Rightarrow> string \<Rightarrow> item list \<Rightarrow> string \<Rightarrow> string" where
  "source w0 d0 items wend = w0 @ d0 @ concat (map render_item items) @ wend"

definition decimal :: "string \<Rightarrow> int" where
  "decimal d = foldl (\<lambda>n c. 10 * n + (of_char c - 48)) 0 d"

definition blank :: "string \<Rightarrow> bool" where
  "blank w = list_all IsSpace w"

definition numeral_text :: "string \<Rightarrow> bool" where
  "numeral_text d = (d \<noteq> [] \<and> list_all IsDigit d)"

definition literal :: "string \<Rightarrow> bool" where
  "literal d = (numeral_text d \<and> (hd d \<noteq> CHR ''0'' \<or> d = ''0'') \<and> decimal d < 2 ^ 63)"

definition op_type :: "char \<Rightarrow> TokenType" where
  "op_type c = (if c = CHR ''+'' then PLUS else MINUS)"

definition item_ok :: "item \<Rightarrow> bool" where
  "item_ok it =
     (blank (ws_before it) \<and> (item_op it = CHR ''+'' \<or> item_op it = CHR ''-'')
      \<and> blank (ws_after it) \<and> literal (item_digits it))"

text \<open>
  An item whose literal is any text of digits, whether \<open>ParseInt\<close> accepts it or not;
  the value \<open>ParseInt\<close> gives to a text, if any; and the value of an operand of the
  tree, if it is an integer literal.
\<close>

definition item_wf :: "item \<Rightarrow> bool" where
  "item_wf it =
     (blank (ws_before it) \<and> (item_op it = CHR ''+'' \<or> item_op it = CHR ''-'')
      \<and> blank (ws_after it) \<and> numeral_text (item_digits it))"

definition converted :: "string \<Rightarrow> int64 option" where
  "converted d = (case ParseInt d of Inr v \<Rightarrow> Some v | Inl e \<Rightarrow> None)"

fun operand_value :: "Node \<Rightarrow> int64 option" where
  "operand_value (IntegerLiteral tok v) = Some v"
| "operand_value (InfixExpression tok left oper right) = None"
| "operand_value (Program e) = None"
| "operand_value (NilPointer t) = None"
| "operand_value NilNode = None"
| "operand_value OtherNode = None"

definition item_value :: "item \<Rightarrow> int64" where
  "item_value it = word_of_int (decimal (item_digits it))"

definition apply_item :: "int64 \<Rightarrow> item \<Rightarrow> int64" where
  "apply_item acc it =
     (if item_op it = CHR ''+'' then acc + item_value it else acc - item_value it)"

definition left_to_right :: "string \<Rightarrow> item list \<Rightarrow> int64" where
  "left_to_right d0 items = foldl apply_item (word_of_int (decimal d0)) items"

fun ahead :: "Parser \<Rightarrow> item list \<Rightarrow> string \<Rightarrow> bool" where
  "ahead p [] wend = (Type (peekToken p) = EOF)"
| "ahead p (it # its) wend =
     (Type (peekToken p) = op_type (item_op it) \<and> Value (peekToken p) = [item_op it]
      \<and> at_input (lexer p) (ws_after it @ item_digits it @ concat (map render_item its) @ wend))"

text \<open>
  A tree without the positions of its tokens: every token replaced by the zero token.
  \<open>grow\<close> is the tree that one iteration of the loop of \<open>parseExpression\<close> builds
  from the tree so far and the next item, positions apart.
\<close>

fun shape :: "Node \<Rightarrow> Node" where
  "shape (Program e) = Program (shape e)"
| "shape (InfixExpression tok left oper right) =
     InfixExpression zero_Token (shape left) oper (shape right)"
| "shape (IntegerLiteral tok v) = IntegerLiteral zero_Token v"
| "shape (NilPointer t) = NilPointer t"
| "shape NilNode = NilNode"
| "shape OtherNode = OtherNode"

definition grow :: "Node \<Rightarrow> item \<Rightarrow> Node" where
  "grow left it =
     InfixExpression zero_Token left [item_op it] (IntegerLiteral zero_Token (item_value it))"

text \<open>
  The items of the source text \<open>7+0+...+0+1\<close> with 65537 literals: 65535 times
  \<open>+0\<close>, then \<open>+1\<close>.
\<close>

definition items_65537 :: "item list" where
  "items_65537 = replicate 65535 (Item [] (CHR ''+'') [] ''0'') @ [Item [] (CHR ''+'') [] ''1'']"

text \<open>The items of the source text \<open>12 + 7 - 5\<close>.\<close>

definition source_12_7_5 :: "item list" where
  "source_12_7_5 = [Item '' '' (CHR ''+'') '' '' ''7'', Item '' '' (CHR ''-'') '' '' ''5'']"

text \<open>
  The operands of the tree that the parser builds, in source order: each is what one call
  of \<open>parseIntegerLiteral\<close> returned, an integer literal with the value of its token,
  or nil after a failed conversion.  Then the parser of the source text \<open>1 + 09\<close> before
  and after \<open>ParseProgram\<close>, and the tree it builds.
\<close>

fun operands :: "Node \<Rightarrow> Node list" where
  "operands (InfixExpression tok left oper right) = operands left @ [right]"
| "operands (IntegerLiteral tok v) = [IntegerLiteral tok v]"
| "operands (Program e) = [Program e]"
| "operands (NilPointer t) = [NilPointer t]"
| "operands NilNode = [NilNode]"
| "operands OtherNode = [OtherNode]"

fun operand_ok :: "Node \<Rightarrow> bool" where
  "operand_ok NilNode = True"
| "operand_ok (IntegerLiteral tok v) = (ParseInt (Value tok) = Inr v)"
| "operand_ok (InfixExpression tok left oper right) = False"
| "operand_ok (Program e) = False"
| "operand_ok (NilPointer t) = False"
| "operand_ok OtherNode = False"

definition parser_09 :: Parser where
  "parser_09 =
     \<lparr>lexer = \<lparr>input = ''1 + 09'', pos = 3, line = 1, column = 4, currentChar = CHR '' ''\<rparr>,
      errors = [],
      curToken = \<lparr>Type = NUMBER, Value = ''1'', Line = 1, Column = 1\<rparr>,
      peekToken = \<lparr>Type = PLUS, Value = ''+'', Line = 1, Column = 3\<rparr>\<rparr>"

definition tree_09 :: Node where
  "tree_09 =
     InfixExpression \<lparr>Type = PLUS, Value = ''+'', Line = 1, Column = 3\<rparr>
       (IntegerLiteral \<lparr>Type = NUMBER, Value = ''1'', Line = 1, Column = 1\<rparr> 1)
       ''+'' NilNode"

definition parser_09_done :: Parser where
  "parser_09_done =
     \<lparr>lexer = \<lparr>input = ''1 + 09'', pos = 6, line = 1, column = 7, currentChar = CHR 0x00\<rparr>,
      errors = [CouldNotParseAsInteger ''09''],
      curToken = \<lparr>Type = NUMBER, Value = ''09'', Line = 1, Column = 5\<rparr>,
      peekToken = \<lparr>Type = EOF, Value = [], Line = 1, Column = 7\<rparr>\<rparr>"

text \<open>The items of the source text \<open>1 + 08 + 2\<close>.\<close>

definition items_08_2 :: "item list" where
  "items_08_2 = [Item '' '' (CHR ''+'') '' '' ''08'', Item '' '' (CHR ''+'') '' '' ''2'']"

section \<open>Concrete machine states\<close>

text \<open>A machine about to add \<open>1\<close> to the largest \<open>int64\<close>.\<close>

definition vm_two :: VM where
  "vm_two = \<lparr>bytecode = \<lparr>Instructions = [OpAdd], Constants = []\<rparr>,
             stack = Int64 9223372036854775807 # Int64 1 # replicate 2046 Nil, sp = 2\<rparr>"

section \<open>The compiler: unknown nodes, nil pointers, and no error\<close>

lemma Compile_code:
  "no_nil_pointer e \<Longrightarrow>
   Compile c e = Returned (None, c\<lparr>instructions := instructions c @ code (length (constants c)) e,
                                    constants := constants c @ map Int64 (lits e)\<rparr>)"
proof (induction e arbitrary: c)
  case (IntegerLiteral tok v)
  show ?case by (simp add: Let_def emit_def load_const_def)
next
  case (InfixExpression tok left oper right)
  then show ?case by (simp add: emit_def)
qed simp_all

lemma Compile_nil_pointer: "\<not> no_nil_pointer e \<Longrightarrow> Compile c e = Panicked NilDereference"
proof (induction e arbitrary: c)
  case (InfixExpression tok left oper right)
  show ?case
  proof (cases "no_nil_pointer left")
    case True
    then have "\<not> no_nil_pointer right" using InfixExpression.prems by simp
    then show ?thesis
      using InfixExpression.IH(2) by (simp add: Compile_code [OF True])
  next
    case False
    then show ?thesis using InfixExpression.IH(1) by simp
  qed
qed simp_all

lemma Compile_no_error: "Compile c node \<noteq> Returned (Some err, c1)"
  by (cases "no_nil_pointer node") (simp_all add: Compile_code Compile_nil_pointer)

text \<open>
  Claim C7, as the code has it.  A node of a kind other than program, infix expression
  and integer literal (a node of a foreign type, or the nil interface) is ignored:
  \<open>Compile\<close> returns the nil error and leaves the compiler as it was, no instruction
  emitted and no constant appended.  \<open>Compile\<close> never returns an error that is not
  nil.  On a tree that holds no nil pointer of the three pointer types it returns the
  nil error, and the compiler has grown by the code and the literals of the tree, to
  which the ignored nodes inside it add nothing; on a tree that holds such a nil pointer
  it does not return: it panics with a nil dereference.
\<close>

theorem Compile_ignores_unknown_nodes:
  "Compile c OtherNode = Returned (None, c)
   \<and> Compile c NilNode = Returned (None, c)
   \<and> Compile c node \<noteq> Returned (Some err, c1)
   \<and> (no_nil_pointer node \<longrightarrow>
        Compile c node
          = Returned (None, c\<lparr>instructions := instructions c @ code (length (constants c)) node,
                               constants := constants c @ map Int64 (lits node)\<rparr>))
   \<and> (\<not> no_nil_pointer node \<longrightarrow> Compile c node = Panicked NilDereference)"
  by (simp add: Compile_code Compile_nil_pointer Compile_no_error)

theorem Compile_ignores_unknown_nodes_witness:
  "no_nil_pointer (InfixExpression zero_Token OtherNode ''+'' NilNode)
   \<and> Compile New_Compiler (InfixExpression zero_Token OtherNode ''+'' NilNode)
       = Returned (None, \<lparr>instructions = [OpAdd], constants = []\<rparr>)
   \<and> \<not> no_nil_pointer (InfixExpression zero_Token OtherNode ''+'' (NilPointer ToIntegerLiteral))
   \<and> Compile New_Compiler (InfixExpression zero_Token OtherNode ''+'' (NilPointer ToIntegerLiteral))
       = Panicked NilDereference"
  using Compile_ignores_unknown_nodes
          [of New_Compiler "InfixExpression zero_Token OtherNode ''+'' NilNode"]
        Compile_ignores_unknown_nodes
          [of New_Compiler "InfixExpression zero_Token OtherNode ''+'' (NilPointer ToIntegerLiteral)"]
  by (simp add: New_Compiler_def)

text \<open>
  \<open>Compile\<close> does not return the nil error for every node: a nil pointer of each of
  the three pointer types, at the root or inside a program node, makes it panic.
\<close>

theorem nil_pointer_node_counterexample:
  "Compile New_Compiler (NilPointer ToProgram) = Panicked NilDereference
   \<and> Compile New_Compiler (NilPointer ToInfixExpression) = Panicked NilDereference
   \<and> Compile New_Compiler (NilPointer ToIntegerLiteral) = Panicked NilDereference
   \<and> Compile New_Compiler (Program (NilPointer ToIntegerLiteral)) = Panicked NilDereference"
  by simp

section \<open>Stack operations and the arithmetic opcodes\<close>

lemma pop_empty: "sp vm = 0 \<Longrightarrow> pop vm = Returned (Nil, vm)"
  by (simp add: pop_def)

lemma pop_nonempty:
  "0 < sp vm \<Longrightarrow> sp vm \<le> int (length (stack vm)) \<Longrightarrow>
   pop vm = Returned (stack vm ! nat (sp vm - 1), vm\<lparr>sp := sp vm - 1\<rparr>)"
  by (simp add: pop_def index_def Let_def)

lemma push_ok:
  "0 \<le> sp vm \<Longrightarrow> sp vm < StackSize \<Longrightarrow> sp vm < int (length (stack vm)) \<Longrightarrow>
   push vm v = Returned (None, vm\<lparr>stack := (stack vm)[nat (sp vm) := v], sp := sp vm + 1\<rparr>)"
  by (simp add: push_def)

lemma push_full: "StackSize \<le> sp vm \<Longrightarrow> push vm v = Returned (Some ''stack overflow'', vm)"
  by (simp add: push_def)

lemma Op_distinct [simp]:
  "OpAdd \<noteq> OpConstant" "OpSub \<noteq> OpConstant" "OpAdd \<noteq> OpSub"
  "OpConstant \<noteq> OpAdd" "OpConstant \<noteq> OpSub" "OpSub \<noteq> OpAdd"
  by (simp_all add: OpAdd_def OpSub_def OpConstant_def)

lemma pop_right:
  assumes "length (stack vm) = nat StackSize" "2 \<le> sp vm" "sp vm \<le> StackSize"
    and "stack vm ! nat (sp vm - 1) = Int64 right"
  shows "pop vm = Returned (Int64 right, vm\<lparr>sp := sp vm - 1\<rparr>)"
  using pop_nonempty [of vm] assms by (simp add: StackSize_def)

lemma pop_left:
  assumes "length (stack vm) = nat StackSize" "2 \<le> sp vm" "sp vm \<le> StackSize"
    and "stack vm ! nat (sp vm - 2) = Int64 left"
  shows "pop (vm\<lparr>sp := sp vm - 1\<rparr>) = Returned (Int64 left, vm\<lparr>sp := sp vm - 2\<rparr>)"
  using pop_nonempty [of "vm\<lparr>sp := sp vm - 1\<rparr>"] assms by (simp add: StackSize_def)

lemma push_result:
  assumes "length (stack vm) = nat StackSize" "2 \<le> sp vm" "sp vm \<le> StackSize"
  shows "push (vm\<lparr>sp := sp vm - 2\<rparr>) v =
           Returned (None, vm\<lparr>stack := (stack vm)[nat (sp vm - 2) := v], sp := sp vm - 1\<rparr>)"
  using push_ok [of "vm\<lparr>sp := sp vm - 2\<rparr>" v] assms by (simp add: StackSize_def)

lemma loop_body_arith:
  assumes op: "Instructions (bytecode vm) ! ip = op" "op = OpAdd \<or> op = OpSub"
    and len: "length (stack vm) = nat StackSize"
    and sp: "2 \<le> sp vm" "sp vm \<le> StackSize"
    and r: "stack vm ! nat (sp vm - 1) = Int64 right"
    and l: "stack vm ! nat (sp vm - 2) = Int64 left"
  shows "loop_body vm ip =
           Continue (vm\<lparr>stack := (stack vm)[nat (sp vm - 2) :=
                            Int64 (if op = OpAdd then left + right else left - right)],
                        sp := sp vm - 1\<rparr>) (ip + 1)"
  using op
  by (auto simp: loop_body_def type_assert_int64_def after_push_def
        pop_right [OF len sp r] pop_left [OF len sp l] push_result [OF len sp])

text \<open>
  Claim C5.  On a machine that holds at least two values, the right one on top, an add
  or subtract opcode pops the right operand first and the left operand second, and the
  iteration goes on at the next byte with the two operands replaced by the single result
  \<open>left + right\<close> or \<open>left - right\<close>.  The arithmetic is that of 64-bit words: read as
  a signed integer, the result is the exact sum or difference wrapped into the range of
  \<open>int64\<close>.
\<close>

theorem add_sub_pops_right_then_left:
  assumes "Instructions (bytecode vm) ! ip = op" "op = OpAdd \<or> op = OpSub"
    and "length (stack vm) = nat StackSize"
    and "2 \<le> sp vm" "sp vm \<le> StackSize"
    and "stack vm ! nat (sp vm - 1) = Int64 right"
    and "stack vm ! nat (sp vm - 2) = Int64 left"
  shows "pop vm = Returned (Int64 right, vm\<lparr>sp := sp vm - 1\<rparr>)
       \<and> pop (vm\<lparr>sp := sp vm - 1\<rparr>) = Returned (Int64 left, vm\<lparr>sp := sp vm - 2\<rparr>)
       \<and> loop_body vm ip =
           Continue (vm\<lparr>stack := (stack vm)[nat (sp vm - 2) :=
                            Int64 (if op = OpAdd then left + right else left - right)],
                        sp := sp vm - 1\<rparr>) (ip + 1)
       \<and> sint (left + right) = signed_take_bit 63 (sint left + sint right)
       \<and> sint (left - right) = signed_take_bit 63 (sint left - sint right)"
  using assms
  by (simp add: pop_right pop_left loop_body_arith sint_word_ariths del: One_nat_def)

theorem add_sub_pops_right_then_left_witness:
  "length (stack vm_two) = nat StackSize \<and> sp vm_two = 2
   \<and> pop vm_two = Returned (Int64 1, vm_two\<lparr>sp := 1\<rparr>)
   \<and> pop (vm_two\<lparr>sp := 1\<rparr>) = Returned (Int64 9223372036854775807, vm_two\<lparr>sp := 0\<rparr>)
   \<and> loop_body vm_two 0 =
        Continue (vm_two\<lparr>stack := Int64 (- 9223372036854775808) # Int64 1 # replicate 2046 Nil,
                         sp := 1\<rparr>) 1
   \<and> sint (9223372036854775807 + 1 :: int64) = - 9223372036854775808"
  using add_sub_pops_right_then_left [of vm_two 0 OpAdd 1 9223372036854775807]
  by (simp add: vm_two_def StackSize_def)

lemma loop_body_arith_underflow:
  assumes "Instructions (bytecode vm) ! ip = OpAdd \<or> Instructions (bytecode vm) ! ip = OpSub"
    and "0 \<le> sp vm" "sp vm < 2" "sp vm \<le> int (length (stack vm))"
  shows "loop_body vm ip =
           Panic (TypeAssertion (if sp vm = 1 \<and> stack vm ! 0 = Other then Other else Nil))"
proof (cases "sp vm = 0")
  case True
  then show ?thesis
    using assms(1) by (auto simp: loop_body_def pop_empty type_assert_int64_def)
next
  case False
  then have one: "sp vm = 1" using assms by arith
  have p: "pop vm = Returned (stack vm ! 0, vm\<lparr>sp := 0\<rparr>)"
    using pop_nonempty [of vm] one assms by simp
  have q: "pop (vm\<lparr>sp := 0\<rparr>) = Returned (Nil, vm\<lparr>sp := 0\<rparr>)"
    by (simp add: pop_empty)
  show ?thesis
    using assms(1) one
    by (cases "stack vm ! 0") (auto simp: loop_body_def p q type_assert_int64_def)
qed

text \<open>
  Claim C10.  A pop from the empty stack returns nil and leaves the stack pointer at 0.
  An add or subtract opcode met with fewer than two values on the stack therefore does
  not make \<open>Run\<close> return an error: the loop panics at the type assertion \<open>.(int64)\<close>,
  on the nil that the empty stack gave (or, with one value that is not an \<open>int64\<close> on
  the stack, on that value).
\<close>

theorem arith_on_short_stack_panics:
  assumes "ip < length (Instructions (bytecode vm))"
    and "Instructions (bytecode vm) ! ip = OpAdd \<or> Instructions (bytecode vm) ! ip = OpSub"
    and "0 \<le> sp vm" "sp vm < 2" "sp vm \<le> int (length (stack vm))"
  shows "pop (vm\<lparr>sp := 0\<rparr>) = Returned (Nil, vm\<lparr>sp := 0\<rparr>)
       \<and> run_loop vm ip =
           Panicked (TypeAssertion (if sp vm = 1 \<and> stack vm ! 0 = Other then Other else Nil))"
  using assms(1) loop_body_arith_underflow [OF assms(2-5)]
  by (simp add: pop_empty run_loop.simps [of vm ip])

theorem arith_on_short_stack_panics_witness:
  "sp (New_VM \<lparr>Instructions = [OpAdd], Constants = []\<rparr>) = 0
   \<and> pop (New_VM \<lparr>Instructions = [OpAdd], Constants = []\<rparr>)
        = Returned (Nil, New_VM \<lparr>Instructions = [OpAdd], Constants = []\<rparr>)
   \<and> Run (New_VM \<lparr>Instructions = [OpAdd], Constants = []\<rparr>) = Panicked (TypeAssertion Nil)"
  using arith_on_short_stack_panics [of 0 "New_VM \<lparr>Instructions = [OpAdd], Constants = []\<rparr>"]
  by (simp add: New_VM_def Run_def StackSize_def)

section \<open>The constant pool and the embedded indices\<close>

lemma or_bytes: "or (push_bit 8 (take_bit 8 (drop_bit 8 x))) (take_bit 8 x) = take_bit 16 (x::int)"
  by (rule bit_eqI) (auto simp: bit_simps)

lemma operand_encode:
  "operand (word_of_int (drop_bit 8 x)) (word_of_int x) = x mod 65536"
proof -
  have "operand (word_of_int (drop_bit 8 x)) (word_of_int x)
          = or (push_bit 8 (take_bit 8 (drop_bit 8 x))) (take_bit 8 x)"
    unfolding operand_def uint_word_of_int_eq by simp
  also have "\<dots> = x mod 65536"
    unfolding or_bytes by (simp add: take_bit_eq_mod)
  finally show ?thesis .
qed

lemma load_operands_other [simp]:
  "op \<noteq> OpConstant \<Longrightarrow> load_operands (op # rest) = load_operands rest"
  by (cases "(op # rest)" rule: load_operands.cases) auto

lemma load_operands_load_const [simp]:
  "load_operands (load_const k @ rest) = int k mod 65536 # load_operands rest"
  unfolding load_const_def using operand_encode [of "int k"]
  by (simp del: of_int_of_nat_eq)

lemma load_operands_code:
  "load_operands (code k e @ rest) =
     map (\<lambda>i. int i mod 65536) [k ..< k + length (lits e)] @ load_operands rest"
proof (induction e arbitrary: k rest)
  case (InfixExpression tok left oper right)
  show ?case
    using upt_add_eq_append [of k "k + length (lits left)" "length (lits right)"]
    by (simp add: InfixExpression add.assoc)
next
  case (IntegerLiteral tok v)
  show ?case by (simp add: upt_conv_Cons)
qed simp_all

section \<open>Executing compiled expressions\<close>

lemma run_steps_add:
  "run_steps (a + b) vm ip =
     (case run_steps a vm ip of None \<Rightarrow> None | Some (vm1, ip1) \<Rightarrow> run_steps b vm1 ip1)"
  by (induction a arbitrary: vm ip) (auto split: iteration.splits)

lemma run_steps_run_loop:
  "run_steps n vm ip = Some (vm1, ip1) \<Longrightarrow> run_loop vm ip = run_loop vm1 ip1"
proof (induction n arbitrary: vm ip)
  case 0
  then show ?case by simp
next
  case (Suc n)
  then show ?case
    by (subst run_loop.simps) (auto split: if_splits iteration.splits)
qed

lemma is_int64_conv: "is_int64 v \<Longrightarrow> v = Int64 (int64_of v)"
  by (cases v) auto

lemma index_nat: "index xs (int n) = (if n < length xs then Returned (xs ! n) else Panicked IndexOutOfRange)"
  by (simp add: index_def)

lemma nat_one_plus:
  "nat (1 + int n) = Suc n" "nat (int (Suc n) + 1) = Suc (Suc n)" "nat (2 + int n) = Suc (Suc n)"
  by simp_all

lemma index_operands:
  assumes "ins = pre @ op # hi # lo # post"
  shows "index ins (1 + int (length pre)) = Returned hi"
    and "index ins (int (Suc (length pre)) + 1) = Returned lo"
    and "index ins (2 + int (length pre)) = Returned lo"
  using assms by (simp_all add: index_def nat_one_plus nth_append)

lemma loop_body_load:
  assumes ins: "Instructions (bytecode vm) = pre @ load_const k @ post"
    and k: "k mod 65536 < length (Constants (bytecode vm))"
    and st: "length (stack vm) = nat StackSize" "0 \<le> sp vm" "sp vm < StackSize"
  shows "loop_body vm (length pre) =
           Continue (vm\<lparr>stack := (stack vm)[nat (sp vm) := Constants (bytecode vm) ! (k mod 65536)],
                        sp := sp vm + 1\<rparr>) (length pre + 3)"
proof -
  let ?hi = "word_of_int (drop_bit 8 (int k)) :: byte" and ?lo = "word_of_int (int k) :: byte"
  have ins': "Instructions (bytecode vm) = pre @ OpConstant # ?hi # ?lo # post"
    by (simp add: ins load_const_def del: of_int_of_nat_eq)
  have op: "operand ?hi ?lo = int (k mod 65536)"
    using operand_encode [of "int k"] by (simp add: zmod_int del: of_int_of_nat_eq)
  have 0: "Instructions (bytecode vm) ! length pre = OpConstant"
    by (simp add: ins')
  have 3: "index (Constants (bytecode vm)) (int (k mod 65536))
             = Returned (Constants (bytecode vm) ! (k mod 65536))"
    using k by (simp add: index_nat)
  show ?thesis
    using st
    by (simp add: loop_body_def Let_def 0 index_operands [OF ins'] op 3 push_ok after_push_def
          StackSize_def del: of_int_of_nat_eq)
qed

lemma loop_body_load_full:
  assumes ins: "Instructions (bytecode vm) = pre @ load_const k @ post"
    and k: "k mod 65536 < length (Constants (bytecode vm))"
    and st: "StackSize \<le> sp vm"
  shows "loop_body vm (length pre) = Return (Some ''stack overflow'') vm"
proof -
  let ?hi = "word_of_int (drop_bit 8 (int k)) :: byte" and ?lo = "word_of_int (int k) :: byte"
  have ins': "Instructions (bytecode vm) = pre @ OpConstant # ?hi # ?lo # post"
    by (simp add: ins load_const_def del: of_int_of_nat_eq)
  have op: "operand ?hi ?lo = int (k mod 65536)"
    using operand_encode [of "int k"] by (simp add: zmod_int del: of_int_of_nat_eq)
  have 0: "Instructions (bytecode vm) ! length pre = OpConstant"
    by (simp add: ins')
  have 3: "index (Constants (bytecode vm)) (int (k mod 65536))
             = Returned (Constants (bytecode vm) ! (k mod 65536))"
    using k by (simp add: index_nat)
  show ?thesis
    using st
    by (simp add: loop_body_def Let_def 0 index_operands [OF ins'] op 3 push_full after_push_def
          del: of_int_of_nat_eq)
qed


lemma within_add:
  assumes "run_steps a vm ip = Some (vm1, ip1)"
    and "within a vm ip lo hi" "within b vm1 ip1 lo hi"
  shows "within (a + b) vm ip lo hi"
  unfolding within_def
proof (intro allI impI)
  fix m vm2 ip2
  assume m: "m \<le> a + b" and r: "run_steps m vm ip = Some (vm2, ip2)"
  show "lo \<le> sp vm2 \<and> sp vm2 \<le> hi"
  proof (cases "m \<le> a")
    case True
    with assms(2) r show ?thesis unfolding within_def by blast
  next
    case False
    then have "m = a + (m - a)" "m - a \<le> b" using m by auto
    then have "run_steps (m - a) vm1 ip1 = Some (vm2, ip2)" "m - a \<le> b"
      using r run_steps_add [of a "m - a" vm ip] assms(1) by auto
    with assms(3) show ?thesis unfolding within_def by blast
  qed
qed

lemma within_mono:
  "within n vm ip lo hi \<Longrightarrow> lo' \<le> lo \<Longrightarrow> hi \<le> hi' \<Longrightarrow> within n vm ip lo' hi'"
  unfolding within_def by fastforce

lemma within_one:
  assumes "run_steps 1 vm ip = Some (vm1, ip1)"
    and "lo \<le> sp vm" "sp vm \<le> hi" "lo \<le> sp vm1" "sp vm1 \<le> hi"
  shows "within 1 vm ip lo hi"
  unfolding within_def
proof (intro allI impI)
  fix m vm2 ip2
  assume "m \<le> 1" and r: "run_steps m vm ip = Some (vm2, ip2)"
  then consider "m = 0" | "m = 1" by linarith
  then show "lo \<le> sp vm2 \<and> sp vm2 \<le> hi"
  proof cases
    case 1 with r assms show ?thesis by simp
  next
    case 2 with r assms show ?thesis by simp
  qed
qed

lemma run_steps_one:
  "ip < length (Instructions (bytecode vm)) \<Longrightarrow> loop_body vm ip = Continue vm1 ip1 \<Longrightarrow>
   run_steps 1 vm ip = Some (vm1, ip1)"
  by simp

lemma depth_pos: "arith_tree e \<Longrightarrow> 1 \<le> depth e"
  by (induction e) auto

lemma exec_code:
  assumes "arith_tree e"
    and "Instructions (bytecode vm) = pre @ code k e @ post"
    and "k + length (lits e) \<le> length (Constants (bytecode vm))"
    and "list_all is_int64 (Constants (bytecode vm))"
    and "length (stack vm) = nat StackSize" "0 \<le> sp vm" "sp vm + int (depth e) \<le> StackSize"
  shows "\<exists>n vm1. run_steps n vm (length pre) = Some (vm1, length pre + length (code k e))
           \<and> bytecode vm1 = bytecode vm \<and> length (stack vm1) = length (stack vm)
           \<and> sp vm1 = sp vm + 1
           \<and> stack vm1 ! nat (sp vm) = Int64 (loaded (Constants (bytecode vm)) k e)
           \<and> (\<forall>i < nat (sp vm). stack vm1 ! i = stack vm ! i)
           \<and> within n vm (length pre) (sp vm) (sp vm + int (depth e))"
  using assms
proof (induction e arbitrary: vm pre post k)
  case (IntegerLiteral tok v)
  let ?cs = "Constants (bytecode vm)"
  let ?vm1 = "vm\<lparr>stack := (stack vm)[nat (sp vm) := ?cs ! (k mod 65536)], sp := sp vm + 1\<rparr>"
  have ins: "Instructions (bytecode vm) = pre @ load_const k @ post"
    using IntegerLiteral.prems(2) by simp
  have k: "k mod 65536 < length ?cs"
  proof -
    have "k mod 65536 \<le> k" by simp
    then show ?thesis using IntegerLiteral.prems(3) by simp
  qed
  have sp: "sp vm < StackSize" using IntegerLiteral.prems(7) by simp
  have lb: "loop_body vm (length pre) = Continue ?vm1 (length pre + 3)"
    using loop_body_load [OF ins k IntegerLiteral.prems(5,6) sp] .
  have rs: "run_steps 1 vm (length pre) = Some (?vm1, length pre + length (code k (IntegerLiteral tok v)))"
    using run_steps_one [OF _ lb] by (simp add: ins load_const_def)
  have v: "?cs ! (k mod 65536) = Int64 (int64_of (?cs ! (k mod 65536)))"
    using IntegerLiteral.prems(4) k by (simp add: list_all_length is_int64_conv)
  have w: "within 1 vm (length pre) (sp vm) (sp vm + int (depth (IntegerLiteral tok v)))"
    using within_one [OF rs] by simp
  have st: "stack ?vm1 ! nat (sp vm) = Int64 (loaded ?cs k (IntegerLiteral tok v))"
    using v IntegerLiteral.prems(5,6) sp by (simp add: StackSize_def)
  show ?case
    using rs w st by (intro exI [of _ 1] exI [of _ ?vm1]) simp
next
  case (InfixExpression tok left oper right)
  let ?cs = "Constants (bytecode vm)"
  let ?opb = "if oper = ''+'' then OpAdd else OpSub"
  let ?kr = "k + length (lits left)"
  let ?d = "depth (InfixExpression tok left oper right)"
  have oper: "oper = ''+'' \<or> oper = ''-''" and al: "arith_tree left" and ar: "arith_tree right"
    using InfixExpression.prems(1) by auto
  have ins: "Instructions (bytecode vm) = pre @ code k left @ (code ?kr right @ ?opb # post)"
    using InfixExpression.prems(2) oper by auto
  have kl: "k + length (lits left) \<le> length ?cs"
    using InfixExpression.prems(3) by simp
  have dl: "sp vm + int (depth left) \<le> StackSize"
    using InfixExpression.prems(7) by simp
  obtain n1 vm1 where
    r1: "run_steps n1 vm (length pre) = Some (vm1, length pre + length (code k left))"
    and b1: "bytecode vm1 = bytecode vm" and l1: "length (stack vm1) = length (stack vm)"
    and s1: "sp vm1 = sp vm + 1"
    and v1: "stack vm1 ! nat (sp vm) = Int64 (loaded ?cs k left)"
    and p1: "\<forall>i < nat (sp vm). stack vm1 ! i = stack vm ! i"
    and w1: "within n1 vm (length pre) (sp vm) (sp vm + int (depth left))"
    using InfixExpression.IH(1) [OF al ins kl InfixExpression.prems(4,5,6) dl] by blast
  have ins2: "Instructions (bytecode vm1) = (pre @ code k left) @ code ?kr right @ (?opb # post)"
    using ins b1 by simp
  have kr: "?kr + length (lits right) \<le> length (Constants (bytecode vm1))"
    using InfixExpression.prems(3) b1 by simp
  have dr: "sp vm1 + int (depth right) \<le> StackSize"
    using InfixExpression.prems(7) s1 by simp
  have c1: "list_all is_int64 (Constants (bytecode vm1))"
    using InfixExpression.prems(4) b1 by simp
  have len1: "length (stack vm1) = nat StackSize" "0 \<le> sp vm1"
    using l1 s1 InfixExpression.prems(5,6) by simp_all
  obtain n2 vm2 where
    r2: "run_steps n2 vm1 (length (pre @ code k left))
           = Some (vm2, length (pre @ code k left) + length (code ?kr right))"
    and b2: "bytecode vm2 = bytecode vm1" and l2: "length (stack vm2) = length (stack vm1)"
    and s2: "sp vm2 = sp vm1 + 1"
    and v2: "stack vm2 ! nat (sp vm1) = Int64 (loaded (Constants (bytecode vm1)) ?kr right)"
    and p2: "\<forall>i < nat (sp vm1). stack vm2 ! i = stack vm1 ! i"
    and w2: "within n2 vm1 (length (pre @ code k left)) (sp vm1) (sp vm1 + int (depth right))"
    using InfixExpression.IH(2) [OF ar ins2 kr c1 len1 dr] by blast
  let ?ip2 = "length pre + length (code k left) + length (code ?kr right)"
  let ?res = "if ?opb = OpAdd then loaded ?cs k left + loaded ?cs ?kr right
              else loaded ?cs k left - loaded ?cs ?kr right"
  let ?vm3 = "vm2\<lparr>stack := (stack vm2)[nat (sp vm2 - 2) := Int64 ?res], sp := sp vm2 - 1\<rparr>"
  have at: "Instructions (bytecode vm2) ! ?ip2 = ?opb"
    using ins b1 b2 by (simp add: nth_append)
  have lt: "?ip2 < length (Instructions (bytecode vm2))"
    using ins b1 b2 by simp
  have top: "stack vm2 ! nat (sp vm2 - 1) = Int64 (loaded ?cs ?kr right)"
    using v2 s2 b1 by simp
  have below: "stack vm2 ! nat (sp vm2 - 2) = Int64 (loaded ?cs k left)"
    using p2 v1 s1 s2 InfixExpression.prems(6) by simp
  have sp2: "2 \<le> sp vm2" "sp vm2 \<le> StackSize"
    using s1 s2 InfixExpression.prems(6) dr depth_pos [OF ar] by simp_all
  have len2: "length (stack vm2) = nat StackSize"
    using l2 len1 by simp
  have lb: "loop_body vm2 ?ip2 = Continue ?vm3 (?ip2 + 1)"
    using loop_body_arith [OF at _ len2 sp2 top below] by simp
  have r3: "run_steps 1 vm2 ?ip2 = Some (?vm3, ?ip2 + 1)"
    using run_steps_one [OF lt lb] .
  have r12: "run_steps (n1 + n2) vm (length pre) = Some (vm2, ?ip2)"
    using r1 r2 by (simp add: run_steps_add)
  have r123: "run_steps (n1 + n2 + 1) vm (length pre) = Some (?vm3, ?ip2 + 1)"
    using r12 r3 by (simp only: run_steps_add [of "n1 + n2" 1] option.case prod.case)
  have w3: "within 1 vm2 ?ip2 (sp vm) (sp vm + int ?d)"
    using within_one [OF r3, of "sp vm" "sp vm + int ?d"] s1 s2 depth_pos [OF ar] by simp
  have w12: "within (n1 + n2) vm (length pre) (sp vm) (sp vm + int ?d)"
  proof (rule within_add [OF r1])
    show "within n1 vm (length pre) (sp vm) (sp vm + int ?d)"
      using within_mono [OF w1] by simp
    show "within n2 vm1 (length pre + length (code k left)) (sp vm) (sp vm + int ?d)"
      using within_mono [OF w2, of "sp vm" "sp vm + int ?d"] s1 by simp
  qed
  have w123: "within (n1 + n2 + 1) vm (length pre) (sp vm) (sp vm + int ?d)"
    using within_add [OF r12 w12 w3] .
  have res: "?res = loaded ?cs k (InfixExpression tok left oper right)"
    using oper by auto
  have res: "?res = loaded ?cs k (InfixExpression tok left oper right)"
    using oper by auto
  have f1: "run_steps (n1 + n2 + 1) vm (length pre)
              = Some (?vm3, length pre + length (code k (InfixExpression tok left oper right)))"
    using r123 oper by auto
  have f2: "bytecode ?vm3 = bytecode vm" using b1 b2 by simp
  have f3: "length (stack ?vm3) = length (stack vm)" using l1 l2 by simp
  have f4: "sp ?vm3 = sp vm + 1" using s1 s2 by simp
  have idx: "nat (sp vm2 - 2) = nat (sp vm)" using s1 s2 by simp
  have inb: "nat (sp vm) < length (stack vm2)"
    using len2 sp2 s1 s2 InfixExpression.prems(6) by simp
  have f5: "stack ?vm3 ! nat (sp vm) = Int64 (loaded ?cs k (InfixExpression tok left oper right))"
    using inb by (simp add: idx res [symmetric] del: loaded.simps)
  have f6: "\<forall>i < nat (sp vm). stack ?vm3 ! i = stack vm ! i"
  proof (intro allI impI)
    fix i assume i: "i < nat (sp vm)"
    then have "i < nat (sp vm1)" using s1 by simp
    then have "stack vm2 ! i = stack vm1 ! i" using p2 by blast
    also have "\<dots> = stack vm ! i" using p1 i by blast
    finally show "stack ?vm3 ! i = stack vm ! i" using i by (simp add: idx)
  qed
  show ?case
    using f1 f2 f3 f4 f5 f6 w123 by blast
qed simp_all

section \<open>Stack depth and stack overflow\<close>

lemma additive_arith: "additive e \<Longrightarrow> arith_tree e \<and> depth e \<le> 2"
  by (induction e rule: additive.induct) auto

lemma loaded_eval:
  assumes "arith_tree e" "length pre = k" "k + length (lits e) \<le> 65536"
  shows "loaded (pre @ map Int64 (lits e) @ post) k e = eval e"
  using assms
proof (induction e arbitrary: k pre post)
  case (IntegerLiteral tok v)
  then show ?case by (simp add: nth_append)
next
  case (InfixExpression tok left oper right)
  have l: "loaded (pre @ map Int64 (lits left) @ (map Int64 (lits right) @ post)) k left = eval left"
    using InfixExpression.prems by (intro InfixExpression.IH(1)) auto
  have r: "loaded ((pre @ map Int64 (lits left)) @ map Int64 (lits right) @ post)
             (k + length (lits left)) right = eval right"
    using InfixExpression.prems by (intro InfixExpression.IH(2)) auto
  show ?case using l r by simp
qed simp_all

lemma run_steps_stuck:
  assumes "run_steps n vm ip = Some (vm1, ip1)" "length (Instructions (bytecode vm1)) \<le> ip1"
    and "run_steps m vm ip = Some (vm2, ip2)"
  shows "m \<le> n"
proof (rule ccontr)
  assume "\<not> m \<le> n"
  then obtain j where "m = n + Suc j" by (metis add_Suc_right less_imp_Suc_add not_le)
  then have "run_steps m vm ip = run_steps (Suc j) vm1 ip1"
    using assms(1) by (simp only: run_steps_add option.case prod.case)
  then show False using assms(2,3) by simp
qed

lemma arith_no_nil_pointer: "arith_tree e \<Longrightarrow> no_nil_pointer e"
  by (induction e) auto

lemma Compile_arith:
  "arith_tree e \<Longrightarrow>
   Compile New_Compiler (Program e)
     = Returned (None, \<lparr>instructions = code 0 e, constants = map Int64 (lits e)\<rparr>)"
  using Compile_code [of "Program e" New_Compiler] arith_no_nil_pointer [of e]
  by (simp add: New_Compiler_def)

lemma run_code:
  assumes e: "arith_tree e" and d: "int (depth e) \<le> StackSize"
    and bc: "Instructions bc = code 0 e" "Constants bc = map Int64 (lits e)"
  shows "\<exists>vm1. Run (New_VM bc) = Returned (None, vm1) \<and> sp vm1 = 1
           \<and> StackTop vm1 = Returned (Int64 (loaded (map Int64 (lits e)) 0 e))
           \<and> (\<forall>m vm2 ip2. run_steps m (New_VM bc) 0 = Some (vm2, ip2) \<longrightarrow>
                 0 \<le> sp vm2 \<and> sp vm2 \<le> int (depth e))"
proof -
  let ?vm = "New_VM bc"
  have ins: "Instructions (bytecode ?vm) = [] @ code 0 e @ []"
    by (simp add: New_VM_def bc)
  have cs: "0 + length (lits e) \<le> length (Constants (bytecode ?vm))"
    by (simp add: New_VM_def bc)
  have ints: "list_all is_int64 (Constants (bytecode ?vm))"
    by (simp add: New_VM_def bc list_all_iff)
  have st: "length (stack ?vm) = nat StackSize" "0 \<le> sp ?vm" "sp ?vm + int (depth e) \<le> StackSize"
    using d by (simp_all add: New_VM_def)
  obtain n vm1 where
    r: "run_steps n ?vm (length ([]::byte list)) = Some (vm1, length ([]::byte list) + length (code 0 e))"
    and b: "bytecode vm1 = bytecode ?vm" and l: "length (stack vm1) = length (stack ?vm)"
    and s: "sp vm1 = sp ?vm + 1"
    and v: "stack vm1 ! nat (sp ?vm) = Int64 (loaded (Constants (bytecode ?vm)) 0 e)"
    and w: "within n ?vm (length ([]::byte list)) (sp ?vm) (sp ?vm + int (depth e))"
    using exec_code [OF e ins cs ints st] by blast
  have r': "run_steps n ?vm 0 = Some (vm1, length (code 0 e))" using r by simp
  have fin: "length (Instructions (bytecode vm1)) \<le> length (code 0 e)"
    using b by (simp add: New_VM_def bc)
  have "run_loop ?vm 0 = run_loop vm1 (length (code 0 e))"
    using run_steps_run_loop [OF r'] .
  also have "\<dots> = Returned (None, vm1)"
    using fin by (subst run_loop.simps) simp
  finally have run: "Run ?vm = Returned (None, vm1)" by (simp add: Run_def)
  have sp1: "sp vm1 = 1" using s by (simp add: New_VM_def)
  have top: "StackTop vm1 = Returned (Int64 (loaded (map Int64 (lits e)) 0 e))"
    using v l sp1 by (simp add: StackTop_def index_def New_VM_def bc StackSize_def)
  have bound: "0 \<le> sp vm2 \<and> sp vm2 \<le> int (depth e)"
    if "run_steps m ?vm 0 = Some (vm2, ip2)" for m vm2 ip2
  proof -
    have "m \<le> n" using run_steps_stuck [OF r' fin that] .
    then show ?thesis using w that unfolding within_def by (fastforce simp: New_VM_def)
  qed
  show ?thesis using run sp1 top bound by blast
qed

lemma run_compiled:
  assumes e: "arith_tree e" and d: "int (depth e) \<le> StackSize"
  shows "\<exists>c vm1. Compile New_Compiler (Program e) = Returned (None, c)
           \<and> instructions c = code 0 e \<and> constants c = map Int64 (lits e)
           \<and> Run (New_VM (Bytecode_of c)) = Returned (None, vm1) \<and> sp vm1 = 1
           \<and> StackTop vm1 = Returned (Int64 (loaded (map Int64 (lits e)) 0 e))
           \<and> (\<forall>m vm2 ip2. run_steps m (New_VM (Bytecode_of c)) 0 = Some (vm2, ip2) \<longrightarrow>
                 0 \<le> sp vm2 \<and> sp vm2 \<le> int (depth e))"
proof -
  let ?c = "\<lparr>instructions = code 0 e, constants = map Int64 (lits e)\<rparr>"
  have "\<exists>vm1. Run (New_VM (Bytecode_of ?c)) = Returned (None, vm1) \<and> sp vm1 = 1
           \<and> StackTop vm1 = Returned (Int64 (loaded (map Int64 (lits e)) 0 e))
           \<and> (\<forall>m vm2 ip2. run_steps m (New_VM (Bytecode_of ?c)) 0 = Some (vm2, ip2) \<longrightarrow>
                 0 \<le> sp vm2 \<and> sp vm2 \<le> int (depth e))"
    by (rule run_code [OF e d]) (simp_all add: Bytecode_of_def)
  then show ?thesis
    using Compile_arith [OF e] by (intro exI [of _ ?c]) simp
qed

text \<open>
  Claim C9.  For every additive expression, however many literals it has, the compiled
  program runs on a fresh machine to the end and \<open>Run\<close> returns no error; after every
  number of iterations of the loop the stack pointer is between 0 and 2, so no push
  finds the stack full.
\<close>

theorem additive_code_needs_two_slots:
  assumes "additive e"
  shows "\<exists>c. Compile New_Compiler (Program e) = Returned (None, c)
           \<and> (\<exists>vm1. Run (New_VM (Bytecode_of c)) = Returned (None, vm1) \<and> sp vm1 = 1)
           \<and> Run_error (New_VM (Bytecode_of c)) = Returned None
           \<and> (\<forall>m vm2 ip2.
                 run_steps m (New_VM (Bytecode_of c)) 0 = Some (vm2, ip2) \<longrightarrow>
                 0 \<le> sp vm2 \<and> sp vm2 \<le> 2)"
proof -
  have a: "arith_tree e" and d: "depth e \<le> 2"
    using additive_arith [OF assms] by simp_all
  have d': "int (depth e) \<le> StackSize" using d by (simp add: StackSize_def)
  obtain c vm1 where
    comp: "Compile New_Compiler (Program e) = Returned (None, c)"
    and run: "Run (New_VM (Bytecode_of c)) = Returned (None, vm1)"
    and sp1: "sp vm1 = 1"
    and bound: "\<forall>m vm2 ip2.
       run_steps m (New_VM (Bytecode_of c)) 0 = Some (vm2, ip2)
         \<longrightarrow> 0 \<le> sp vm2 \<and> sp vm2 \<le> int (depth e)"
    using run_compiled [OF a d'] by blast
  have "Run_error (New_VM (Bytecode_of c)) = Returned None"
    unfolding Run_error_def run by simp
  moreover have "0 \<le> sp vm2 \<and> sp vm2 \<le> 2"
    if "run_steps m (New_VM (Bytecode_of c)) 0 = Some (vm2, ip2)"
    for m vm2 ip2
    using bound that d by fastforce
  ultimately show ?thesis using comp run sp1 by blast
qed

theorem additive_code_needs_two_slots_witness:
  "additive tree_12_7_5
   \<and> (\<exists>c. Compile New_Compiler (Program tree_12_7_5) = Returned (None, c)
         \<and> Run_error (New_VM (Bytecode_of c)) = Returned None
         \<and> (\<exists>vm1. Run (New_VM (Bytecode_of c)) = Returned (None, vm1) \<and> sp vm1 = 1))"
proof -
  have h: "additive tree_12_7_5" by (simp add: tree_12_7_5_def)
  show ?thesis using h additive_code_needs_two_slots [OF h] by blast
qed

lemma loop_body_Continue_sp:
  assumes "loop_body vm ip = Continue vm1 ip1" "0 \<le> sp vm" "sp vm \<le> StackSize"
  shows "0 \<le> sp vm1 \<and> sp vm1 \<le> StackSize"
  using assms
  by (auto simp: loop_body_def Let_def push_def pop_def after_push_def type_assert_int64_def
           split: if_splits outcome.splits prod.splits option.splits val.splits)

lemma loop_body_Return:
  assumes "loop_body vm ip = Return err vm1" "0 \<le> sp vm" "sp vm \<le> StackSize"
  shows "err = Some ''stack overflow'' \<and> sp vm1 = StackSize \<and> vm1 = vm"
  using assms
  by (auto simp: loop_body_def Let_def push_def pop_def after_push_def type_assert_int64_def
           split: if_splits outcome.splits prod.splits option.splits val.splits)

lemma run_loop_error:
  "run_loop vm ip = Returned (Some err, vm1) \<Longrightarrow> 0 \<le> sp vm \<Longrightarrow> sp vm \<le> StackSize \<Longrightarrow>
   err = ''stack overflow'' \<and> sp vm1 = StackSize"
proof (induction vm ip rule: run_loop.induct)
  case (1 vm ip)
  show ?case
  proof (cases "ip < length (Instructions (bytecode vm))")
    case False
    with "1.prems" show ?thesis by (simp add: run_loop.simps [of vm ip])
  next
    case True
    show ?thesis
    proof (cases "loop_body vm ip")
      case (Continue vm2 ip2)
      have "run_loop vm2 ip2 = Returned (Some err, vm1)"
        using "1.prems"(1) True Continue by (simp add: run_loop.simps [of vm ip])
      moreover have "0 \<le> sp vm2" "sp vm2 \<le> StackSize"
        using loop_body_Continue_sp [OF Continue "1.prems"(2,3)] by simp_all
      ultimately show ?thesis using "1.IH" [OF True Continue] by blast
    next
      case (Return e vm2)
      have eq: "e = Some err" "vm2 = vm1"
        using "1.prems"(1) True Return by (simp_all add: run_loop.simps [of vm ip])
      have "e = Some ''stack overflow'' \<and> sp vm2 = StackSize"
        using loop_body_Return [OF Return "1.prems"(2,3)] by blast
      then show ?thesis using eq by auto
    next
      case (Panic e)
      then show ?thesis using "1.prems" True by (simp add: run_loop.simps [of vm ip])
    qed
  qed
qed

lemma run_load_consts:
  assumes "Instructions (bytecode vm) = pre @ concat (map load_const ks)"
    and "\<forall>k \<in> set ks. k mod 65536 < length (Constants (bytecode vm))"
    and "length (stack vm) = nat StackSize" "0 \<le> sp vm" "sp vm \<le> StackSize"
  shows "\<exists>vm1. run_loop vm (length pre) =
                 Returned (if sp vm + int (length ks) \<le> StackSize then None
                           else Some ''stack overflow'', vm1)
              \<and> sp vm1 = min (sp vm + int (length ks)) StackSize
              \<and> (sp vm = StackSize \<longrightarrow> vm1 = vm)"
  using assms
proof (induction ks arbitrary: vm pre)
  case Nil
  then show ?case by (simp add: run_loop.simps [of vm "length pre"])
next
  case (Cons k ks)
  have ins: "Instructions (bytecode vm) = pre @ load_const k @ concat (map load_const ks)"
    using Cons.prems(1) by simp
  have k: "k mod 65536 < length (Constants (bytecode vm))"
    using Cons.prems(2) by simp
  have lt: "length pre < length (Instructions (bytecode vm))"
    by (simp add: ins load_const_def)
  show ?case
  proof (cases "sp vm = StackSize")
    case True
    have "loop_body vm (length pre) = Return (Some ''stack overflow'') vm"
      using loop_body_load_full [OF ins k] True by simp
    then have "run_loop vm (length pre) = Returned (Some ''stack overflow'', vm)"
      using lt by (simp add: run_loop.simps [of vm "length pre"])
    then show ?thesis using True by simp
  next
    case False
    then have sp: "sp vm < StackSize" using Cons.prems(5) by simp
    let ?vm1 = "vm\<lparr>stack := (stack vm)[nat (sp vm) := Constants (bytecode vm) ! (k mod 65536)],
                    sp := sp vm + 1\<rparr>"
    have lb: "loop_body vm (length pre) = Continue ?vm1 (length pre + 3)"
      using loop_body_load [OF ins k Cons.prems(3,4) sp] .
    have len3: "length (pre @ load_const k) = length pre + 3"
      by (simp add: load_const_def)
    have step: "run_loop vm (length pre) = run_loop ?vm1 (length (pre @ load_const k))"
      unfolding len3 using lt lb by (simp add: run_loop.simps [of vm "length pre"])
    have ins1: "Instructions (bytecode ?vm1) = (pre @ load_const k) @ concat (map load_const ks)"
      using ins by simp
    have ks: "\<forall>k \<in> set ks. k mod 65536 < length (Constants (bytecode ?vm1))"
      using Cons.prems(2) by simp
    have st: "length (stack ?vm1) = nat StackSize" "0 \<le> sp ?vm1" "sp ?vm1 \<le> StackSize"
      using Cons.prems(3,4) sp by simp_all
    obtain vm2 where
      "run_loop ?vm1 (length (pre @ load_const k)) =
         Returned (if sp ?vm1 + int (length ks) \<le> StackSize then None
                   else Some ''stack overflow'', vm2)"
      and "sp vm2 = min (sp ?vm1 + int (length ks)) StackSize"
      using Cons.IH [OF ins1 ks st] by blast
    then show ?thesis
      using False step by (intro exI [of _ vm2]) (simp add: add.commute add.left_commute)
  qed
qed


text \<open>
  Claim C2, as the code has it.  A push at \<open>sp = StackSize\<close> returns the error and
  leaves the machine unchanged, and \<open>Run\<close> returns that error at once.  The overflow
  depends on the stack pointer, not on the number of pushes made so far: from a fresh
  machine, \<open>Run\<close> returns an error only from a push that found \<open>sp = StackSize\<close>.
  For a program whose remaining instructions are load-constants alone the failing push
  is the one that would make the depth \<open>StackSize + 1\<close>: from a fresh machine, the
  2049th.
\<close>

theorem overflow_exactly_at_full_stack:
  assumes "Instructions (bytecode vm) = pre @ concat (map load_const ks)"
    and "\<forall>k \<in> set ks. k mod 65536 < length (Constants (bytecode vm))"
    and "length (stack vm) = nat StackSize" "0 \<le> sp vm" "sp vm \<le> StackSize"
  shows "push (vm\<lparr>sp := StackSize\<rparr>) v = Returned (Some ''stack overflow'', vm\<lparr>sp := StackSize\<rparr>)
       \<and> (\<exists>vm1. run_loop vm (length pre) =
                   Returned (if sp vm + int (length ks) \<le> StackSize then None
                             else Some ''stack overflow'', vm1)
                \<and> sp vm1 = min (sp vm + int (length ks)) StackSize
                \<and> (sp vm = StackSize \<longrightarrow> vm1 = vm))
       \<and> (\<forall>bc err vm1. Run (New_VM bc) = Returned (Some err, vm1) \<longrightarrow>
             err = ''stack overflow'' \<and> sp vm1 = StackSize)"
proof -
  have "err = ''stack overflow'' \<and> sp vm1 = StackSize"
    if "Run (New_VM bc) = Returned (Some err, vm1)" for bc err vm1
    using run_loop_error [of "New_VM bc" 0 err vm1] that
    by (simp add: Run_def New_VM_def StackSize_def)
  then show ?thesis
    using run_load_consts [OF assms] by (simp add: push_full)
qed

theorem overflow_exactly_at_full_stack_witness:
  "(\<exists>vm1. Run (New_VM (pushes_only 2048)) = Returned (None, vm1) \<and> sp vm1 = 2048)
   \<and> (\<exists>vm1. Run (New_VM (pushes_only 2049)) = Returned (Some ''stack overflow'', vm1)
           \<and> sp vm1 = 2048)"
  using overflow_exactly_at_full_stack [of "New_VM (pushes_only 2048)" "[]" "replicate 2048 0"]
        overflow_exactly_at_full_stack [of "New_VM (pushes_only 2049)" "[]" "replicate 2049 0"]
  by (simp add: New_VM_def pushes_only_def StackSize_def Run_def)

text \<open>
  The program for \<open>1+1+...+1\<close> with 1025 literals makes 2049 pushes, and \<open>Run\<close>
  returns no error: an add in between pops two values and pushes one.
\<close>

lemma additive_sum_tree: "additive (sum_tree n)"
  by (induction n) simp_all

lemma pushes_arith [simp]:
  "op = OpAdd \<or> op = OpSub \<Longrightarrow> pushes (op # rest) = Suc (pushes rest)"
  by (cases "(op # rest)" rule: pushes.cases) auto

lemma pushes_load_const [simp]: "pushes (load_const k @ rest) = Suc (pushes rest)"
  by (simp add: load_const_def)

lemma pushes_sum_tree: "pushes (code k (sum_tree n) @ rest) = 2 * n + 1 + pushes rest"
  by (induction n arbitrary: k rest) simp_all

theorem more_pushes_than_capacity_counterexample:
  "Compile New_Compiler (Program (sum_tree 1024)) = Returned (None, sum_1025)
   \<and> pushes (Instructions (Bytecode_of sum_1025)) = 2049
   \<and> Run_error (New_VM (Bytecode_of sum_1025)) = Returned None"
proof -
  have a: "arith_tree (sum_tree 1024)" and d: "int (depth (sum_tree 1024)) \<le> StackSize"
    using additive_arith [OF additive_sum_tree [of 1024]] by (simp_all add: StackSize_def)
  have comp: "Compile New_Compiler (Program (sum_tree 1024)) = Returned (None, sum_1025)"
    using Compile_arith [OF a] by (simp add: sum_1025_def)
  have "pushes (Instructions (Bytecode_of sum_1025)) = 2049"
    using pushes_sum_tree [of 0 1024 "[]"] by (simp add: Bytecode_of_def sum_1025_def)
  moreover
  obtain vm1 where "Run (New_VM (Bytecode_of sum_1025)) = Returned (None, vm1)"
    using run_compiled [OF a d] comp by auto
  then have "Run_error (New_VM (Bytecode_of sum_1025)) = Returned None"
    unfolding Run_error_def by simp
  ultimately show ?thesis using comp by blast
qed

section \<open>The tokenizer at the end of the input, and literals\<close>

lemma NextToken_at_end:
  "currentChar l = CHR 0x00 \<Longrightarrow>
   NextToken l = Returned (\<lparr>Type = EOF, Value = [], Line = line l, Column = column l\<rparr>, l)"
  by (simp add: NextToken.simps)

lemma reverseKeywords_not_EOF: "reverseKeywords v \<noteq> Some EOF"
  unfolding reverseKeywords_def
  by (auto dest!: map_of_SomeD)

lemma operator_token_not_EOF: "operator_token l = Returned (t, l1) \<Longrightarrow> Type t \<noteq> EOF"
  by (auto simp: operator_token_def Let_def split: if_splits)

lemma readChar_not_EOF: "readChar l = Returned (t, l1) \<Longrightarrow> Type t \<noteq> EOF"
  by (auto simp: readChar_def Let_def split: if_splits outcome.splits prod.splits)

lemma readString_not_EOF: "readString l = Returned (t, l1) \<Longrightarrow> Type t \<noteq> EOF"
  by (auto simp: readString_def Let_def split: if_splits outcome.splits prod.splits)

lemma readNumber_not_EOF: "readNumber l = Returned (t, l1) \<Longrightarrow> Type t \<noteq> EOF"
  by (auto simp: readNumber_def Let_def split: if_splits outcome.splits prod.splits)

lemma readIdentifier_not_EOF: "readIdentifier l = Returned (t, l1) \<Longrightarrow> Type t \<noteq> EOF"
  using reverseKeywords_not_EOF
  by (auto simp: readIdentifier_def Let_def split: if_splits outcome.splits prod.splits option.splits)

lemma NextToken_EOF:
  "NextToken l = Returned (t, l1) \<Longrightarrow> Type t = EOF \<Longrightarrow>
   currentChar l1 = CHR 0x00 \<and> t = \<lparr>Type = EOF, Value = [], Line = line l1, Column = column l1\<rparr>"
proof (induction l rule: NextToken.induct)
  case (1 l)
  show ?case
  proof (cases "currentChar l = CHR 0x00")
    case True
    with "1.prems" show ?thesis by (auto simp: NextToken.simps [of l])
  next
    case False
    show ?thesis
    proof (cases "IsSpace (currentChar l)")
      case True
      with False "1.prems" have "NextToken (skipWhitespace l) = Returned (t, l1)"
        by (simp add: NextToken.simps [of l])
      then show ?thesis using "1.IH" [OF False True] "1.prems"(2) by blast
    next
      case sp: False
      with False "1.prems" show ?thesis
        using operator_token_not_EOF readChar_not_EOF readString_not_EOF readNumber_not_EOF
          readIdentifier_not_EOF
        by (auto simp: NextToken.simps [of l] split: if_splits)
    qed
  qed
qed

text \<open>
  Claim C8.  A tokenizer whose current character is 0 returns the EOF token and is left
  as it was.  So once \<open>NextToken\<close> has returned an EOF token, the next call, made on
  the state that call left, returns the same token and the same state again.
\<close>

theorem NextToken_at_end_idempotent:
  "(currentChar l = CHR 0x00 \<longrightarrow>
      NextToken l = Returned (\<lparr>Type = EOF, Value = [], Line = line l, Column = column l\<rparr>, l))
   \<and> (NextToken l = Returned (t, l1) \<and> Type t = EOF \<longrightarrow> NextToken l1 = Returned (t, l1))"
  using NextToken_at_end [of l] NextToken_at_end [of l1] NextToken_EOF [of l t l1]
  by auto


lemma NextToken_blank:
  "NextToken (New_Lexer '' '')
     = Returned (\<lparr>Type = EOF, Value = [], Line = 1, Column = 2\<rparr>, lexer_at_end)"
  by (simp add: NextToken.simps skipWhitespace.simps New_Lexer_def advance_def IsSpace_def
        lexer_at_end_def)

theorem NextToken_at_end_idempotent_witness:
  "NextToken (New_Lexer '' '')
     = Returned (\<lparr>Type = EOF, Value = [], Line = 1, Column = 2\<rparr>, lexer_at_end)
   \<and> NextToken lexer_at_end
     = Returned (\<lparr>Type = EOF, Value = [], Line = 1, Column = 2\<rparr>, lexer_at_end)"
  using NextToken_at_end_idempotent
          [of "New_Lexer '' ''" "\<lparr>Type = EOF, Value = [], Line = 1, Column = 2\<rparr>" lexer_at_end]
        NextToken_blank
  by simp

lemma advance_fields:
  "pos (advance l) = Suc (pos l)" "input (advance l) = input l"
  "currentChar (advance l) =
     (if length (input l) \<le> Suc (pos l) then CHR 0x00 else input l ! Suc (pos l))"
  by (simp_all add: advance_def Let_def)

lemma at_input_advance: "at_input l (c # rest) \<Longrightarrow> at_input (advance l) rest"
proof -
  assume a: "at_input l (c # rest)"
  then have d: "drop (pos l) (input l) = c # rest" and le: "pos l \<le> length (input l)"
    by (simp_all add: at_input_def)
  have lt: "pos l < length (input l)" using d le by (cases "pos l = length (input l)") auto
  have d1: "drop (Suc (pos l)) (input l) = rest"
    using d by (metis drop_Suc tl_drop list.sel(3))
  have pk: "(if length (input l) \<le> Suc (pos l) then CHR 0x00 else input l ! Suc (pos l)) = peek0 rest"
  proof (cases rest)
    case Nil
    then show ?thesis using d1 by (simp add: peek0_def)
  next
    case (Cons x xs)
    then have "Suc (pos l) < length (input l)" using d1 by (metis drop_all not_le list.distinct(1))
    moreover have "input l ! Suc (pos l) = x" using d1 Cons by (metis nth_via_drop)
    ultimately show ?thesis using Cons by (simp add: peek0_def)
  qed
  have "Suc (pos l) \<le> length (input l)" using lt by simp
  then show ?thesis
    unfolding at_input_def advance_fields pk using d1 by blast
qed

lemma at_input_cur: "at_input l (c # rest) \<Longrightarrow> currentChar l = c"
  by (simp add: at_input_def peek0_def)

lemma at_input_New_Lexer: "at_input (New_Lexer s) s"
  by (cases s) (simp_all add: at_input_def New_Lexer_def peek0_def)

lemma line_advance: "line (advance l) = (if currentChar l = CHR 0x0A then line l + 1 else line l)"
  by (simp add: advance_def Let_def)

lemma readChar_escape:
  assumes "at_input l (CHR 0x27 # CHR 0x5C # e # CHR 0x27 # rest)" "char_escape e = Some d"
  shows "readChar l = Returned (\<lparr>Type = CharConst, Value = [d], Line = line l, Column = column l\<rparr>,
                                advance (advance (advance (advance l))))"
proof -
  have 1: "currentChar (advance l) = CHR 0x5C"
    using at_input_cur [OF at_input_advance [OF assms(1)]] .
  have 2: "currentChar (advance (advance l)) = e"
    using at_input_cur [OF at_input_advance [OF at_input_advance [OF assms(1)]]] .
  have 3: "currentChar (advance (advance (advance l))) = CHR 0x27"
    using at_input_cur [OF at_input_advance [OF at_input_advance [OF at_input_advance [OF assms(1)]]]] .
  show ?thesis
    using assms(2) by (auto simp: readChar_def Let_def 1 2 3 char_escape_def split: if_splits)
qed

lemma readChar_bad_escape:
  assumes "at_input l (CHR 0x27 # CHR 0x5C # rest)" "char_escape (peek0 rest) = None"
  shows "readChar l = Panicked (InvalidEscape (peek0 rest) (line (advance (advance l)))
                                  (column (advance (advance l))))"
proof -
  have 1: "currentChar (advance l) = CHR 0x5C"
    using at_input_cur [OF at_input_advance [OF assms(1)]] .
  have 2: "currentChar (advance (advance l)) = peek0 rest"
    using at_input_advance [OF at_input_advance [OF assms(1)]] by (simp add: at_input_def)
  show ?thesis
    using assms(2) by (auto simp: readChar_def Let_def 1 2 char_escape_def split: if_splits)
qed

lemma readChar_unclosed_plain:
  assumes "at_input l (CHR 0x27 # c # rest)" "c \<noteq> CHR 0x5C" "peek0 rest \<noteq> CHR 0x27"
  shows "readChar l = Panicked (UnclosedChar (line l) (column l))"
proof -
  have 1: "currentChar (advance l) = c"
    using at_input_cur [OF at_input_advance [OF assms(1)]] .
  have 2: "currentChar (advance (advance l)) = peek0 rest"
    using at_input_advance [OF at_input_advance [OF assms(1)]] by (simp add: at_input_def)
  show ?thesis
    using assms(2,3) by (simp add: readChar_def Let_def 1 2)
qed

lemma readChar_unclosed_escape:
  assumes "at_input l (CHR 0x27 # CHR 0x5C # e # rest)" "char_escape e = Some d"
    "peek0 rest \<noteq> CHR 0x27"
  shows "readChar l = Panicked (UnclosedChar (line l) (column l))"
proof -
  have 1: "currentChar (advance l) = CHR 0x5C"
    using at_input_cur [OF at_input_advance [OF assms(1)]] .
  have 2: "currentChar (advance (advance l)) = e"
    using at_input_cur [OF at_input_advance [OF at_input_advance [OF assms(1)]]] .
  have 3: "currentChar (advance (advance (advance l))) = peek0 rest"
    using at_input_advance [OF at_input_advance [OF at_input_advance [OF assms(1)]]]
    by (simp add: at_input_def)
  show ?thesis
    using assms(2,3) by (auto simp: readChar_def Let_def 1 2 3 char_escape_def split: if_splits)
qed

lemma readString_loop_pieces:
  assumes "at_input l (concat (map piece_source ps) @ rest)" "list_all piece_ok ps"
  shows "\<exists>l1. readString_loop l v = readString_loop l1 (v @ concat (map piece_value ps))
             \<and> at_input l1 rest"
  using assms
proof (induction ps arbitrary: l v)
  case Nil
  then show ?case by auto
next
  case (Cons p ps)
  show ?case
  proof (cases p)
    case (Plain c)
    have a: "at_input l (c # concat (map piece_source ps) @ rest)"
      using Cons.prems(1) Plain by simp
    have c: "c \<noteq> CHR 0x22" "c \<noteq> CHR 0x5C" "c \<noteq> CHR 0x00"
      using Cons.prems(2) Plain by simp_all
    have cur: "currentChar l = c" using at_input_cur [OF a] .
    have step: "readString_loop l v = readString_loop (advance l) (v @ rune_string c)"
      using c cur by (subst readString_loop.simps) simp
    obtain l1 where "readString_loop (advance l) (v @ rune_string c)
         = readString_loop l1 (v @ rune_string c @ concat (map piece_value ps))"
      and "at_input l1 rest"
      using Cons.IH [OF at_input_advance [OF a], of "v @ rune_string c"] Cons.prems(2) by auto
    then show ?thesis using step Plain by auto
  next
    case (Escape e)
    have a: "at_input l (CHR 0x5C # e # concat (map piece_source ps) @ rest)"
      using Cons.prems(1) Escape by simp
    obtain d where d: "string_escape e = Some d"
      using Cons.prems(2) Escape by (auto split: option.splits)
    have cur: "currentChar l = CHR 0x5C" using at_input_cur [OF a] .
    have cur1: "currentChar (advance l) = e"
      using at_input_cur [OF at_input_advance [OF a]] .
    have step: "readString_loop l v = readString_loop (advance (advance l)) (v @ [d])"
      using d cur cur1
      by (subst readString_loop.simps) (auto simp: Let_def string_escape_def split: if_splits)
    obtain l1 where "readString_loop (advance (advance l)) (v @ [d])
         = readString_loop l1 (v @ d # concat (map piece_value ps))"
      and "at_input l1 rest"
      using Cons.IH [OF at_input_advance [OF at_input_advance [OF a]], of "v @ [d]"] Cons.prems(2)
      by auto
    then show ?thesis using step Escape d by auto
  qed
qed

lemma readString_closed:
  assumes "at_input l (CHR 0x22 # concat (map piece_source ps) @ CHR 0x22 # rest)"
    and "list_all piece_ok ps"
  shows "\<exists>l1. readString l = Returned (\<lparr>Type = STRING, Value = concat (map piece_value ps),
                                         Line = line l, Column = column l\<rparr>, l1)
             \<and> at_input l1 rest"
proof -
  obtain l1 where 1: "readString_loop (advance l) [] = readString_loop l1 ([] @ concat (map piece_value ps))"
    and 2: "at_input l1 (CHR 0x22 # rest)"
    using readString_loop_pieces [OF at_input_advance [OF assms(1)] assms(2)] by blast
  have cur: "currentChar l1 = CHR 0x22" using at_input_cur [OF 2] .
  have "readString_loop l1 (concat (map piece_value ps)) = Returned (concat (map piece_value ps), l1)"
    using cur by (subst readString_loop.simps) simp
  then show ?thesis
    using 1 cur at_input_advance [OF 2] by (auto simp: readString_def Let_def)
qed

lemma readString_unclosed:
  assumes "at_input l (CHR 0x22 # concat (map piece_source ps) @ rest)"
    and "list_all piece_ok ps" "peek0 rest = CHR 0x00"
  shows "readString l = Panicked (UnclosedString (line l) (column l))"
proof -
  obtain l1 where 1: "readString_loop (advance l) [] = readString_loop l1 ([] @ concat (map piece_value ps))"
    and 2: "at_input l1 rest"
    using readString_loop_pieces [OF at_input_advance [OF assms(1)] assms(2)] by blast
  have cur: "currentChar l1 = CHR 0x00" using 2 assms(3) by (simp add: at_input_def)
  have "readString_loop l1 (concat (map piece_value ps)) = Returned (concat (map piece_value ps), l1)"
    using cur by (subst readString_loop.simps) simp
  then show ?thesis
    using 1 cur by (auto simp: readString_def Let_def)
qed

lemma readString_bad_escape:
  assumes "at_input l (CHR 0x22 # concat (map piece_source ps) @ CHR 0x5C # rest)"
    and "list_all piece_ok ps" "string_escape (peek0 rest) = None"
  shows "\<exists>ln cl. readString l = Panicked (InvalidEscape (peek0 rest) ln cl)"
proof -
  obtain l1 where 1: "readString_loop (advance l) [] = readString_loop l1 ([] @ concat (map piece_value ps))"
    and 2: "at_input l1 (CHR 0x5C # rest)"
    using readString_loop_pieces [OF at_input_advance [OF assms(1)] assms(2)] by blast
  have cur: "currentChar l1 = CHR 0x5C" using at_input_cur [OF 2] .
  have cur1: "currentChar (advance l1) = peek0 rest"
    using at_input_advance [OF 2] by (simp add: at_input_def)
  have "readString_loop l1 (concat (map piece_value ps))
          = Panicked (InvalidEscape (peek0 rest) (line (advance l1)) (column (advance l1)))"
    using cur cur1 assms(3)
    by (subst readString_loop.simps) (auto simp: Let_def string_escape_def split: if_splits)
  then show ?thesis
    using 1 by (auto simp: readString_def Let_def)
qed


text \<open>
  Claim C3, as the code has it.  A character literal accepts the five escapes
  \<open>\n \t \r \' \\\<close>, a string literal the five escapes \<open>\n \t \r \" \\\<close>; each
  decodes to the character it stands for.  Every other character after a backslash
  (also \<open>"\<close> in a character literal, \<open>'\<close> in a string literal, and the end of the
  input) is a panic, and so is a literal whose closing quote is missing.
\<close>

theorem literal_escapes:
  "(at_input l (CHR 0x27 # CHR 0x5C # e # CHR 0x27 # rest) \<and> char_escape e = Some d \<longrightarrow>
      readChar l = Returned (\<lparr>Type = CharConst, Value = [d], Line = line l, Column = column l\<rparr>,
                             advance (advance (advance (advance l)))))
   \<and> (at_input l (CHR 0x27 # CHR 0x5C # rest) \<and> char_escape (peek0 rest) = None \<longrightarrow>
        (\<exists>ln cl. readChar l = Panicked (InvalidEscape (peek0 rest) ln cl)))
   \<and> (at_input l (CHR 0x27 # c # rest) \<and> c \<noteq> CHR 0x5C \<and> peek0 rest \<noteq> CHR 0x27 \<longrightarrow>
        readChar l = Panicked (UnclosedChar (line l) (column l)))
   \<and> (at_input l (CHR 0x27 # CHR 0x5C # e # rest) \<and> char_escape e = Some d
        \<and> peek0 rest \<noteq> CHR 0x27 \<longrightarrow>
        readChar l = Panicked (UnclosedChar (line l) (column l)))
   \<and> (at_input l (CHR 0x22 # concat (map piece_source ps) @ CHR 0x22 # rest)
        \<and> list_all piece_ok ps \<longrightarrow>
        (\<exists>l1. readString l = Returned (\<lparr>Type = STRING, Value = concat (map piece_value ps),
                                          Line = line l, Column = column l\<rparr>, l1)
              \<and> at_input l1 rest))
   \<and> (at_input l (CHR 0x22 # concat (map piece_source ps) @ CHR 0x5C # rest)
        \<and> list_all piece_ok ps \<and> string_escape (peek0 rest) = None \<longrightarrow>
        (\<exists>ln cl. readString l = Panicked (InvalidEscape (peek0 rest) ln cl)))
   \<and> (at_input l (CHR 0x22 # concat (map piece_source ps) @ rest)
        \<and> list_all piece_ok ps \<and> peek0 rest = CHR 0x00 \<longrightarrow>
        readString l = Panicked (UnclosedString (line l) (column l)))
   \<and> char_escape (CHR 0x22) = None \<and> string_escape (CHR 0x27) = None"
proof -
  have "\<exists>ln cl. readChar l = Panicked (InvalidEscape (peek0 rest) ln cl)"
    if "at_input l (CHR 0x27 # CHR 0x5C # rest)" "char_escape (peek0 rest) = None"
    using readChar_bad_escape [OF that] by blast
  moreover have "char_escape (CHR 0x22) = None" "string_escape (CHR 0x27) = None"
    by (simp_all add: char_escape_def string_escape_def)
  ultimately show ?thesis
    using readChar_escape [of l e rest d] readChar_unclosed_plain [of l c rest]
      readChar_unclosed_escape [of l e rest d] readString_closed [of l ps rest]
      readString_bad_escape [of l ps rest] readString_unclosed [of l ps rest]
    by blast
qed

lemma New_Lexer_line_column: "line (New_Lexer s) = 1" "column (New_Lexer s) = 1"
  by (simp_all add: New_Lexer_def)

theorem literal_escapes_witness:
  "readChar (New_Lexer [CHR 0x27, CHR 0x5C, CHR ''n'', CHR 0x27])
     = Returned (\<lparr>Type = CharConst, Value = [CHR 0x0A], Line = 1, Column = 1\<rparr>,
                 advance (advance (advance (advance
                   (New_Lexer [CHR 0x27, CHR 0x5C, CHR ''n'', CHR 0x27])))))
   \<and> (\<exists>l1. readString (New_Lexer [CHR 0x22, CHR ''a'', CHR 0x5C, CHR 0x22, CHR 0x22])
               = Returned (\<lparr>Type = STRING, Value = [CHR ''a'', CHR 0x22], Line = 1, Column = 1\<rparr>, l1))
   \<and> (\<exists>ln cl. readChar (New_Lexer [CHR 0x27, CHR 0x5C, CHR ''x'', CHR 0x27])
               = Panicked (InvalidEscape (CHR ''x'') ln cl))
   \<and> readString (New_Lexer [CHR 0x22, CHR ''a'']) = Panicked (UnclosedString 1 1)"
proof -
  let ?c = "[CHR 0x27, CHR 0x5C, CHR ''n'', CHR 0x27]"
  have "at_input (New_Lexer ?c) (CHR 0x27 # CHR 0x5C # CHR ''n'' # CHR 0x27 # [])
          \<and> char_escape (CHR ''n'') = Some (CHR 0x0A) \<longrightarrow>
        readChar (New_Lexer ?c)
          = Returned (\<lparr>Type = CharConst, Value = [CHR 0x0A], Line = line (New_Lexer ?c),
                        Column = column (New_Lexer ?c)\<rparr>,
                      advance (advance (advance (advance (New_Lexer ?c)))))"
    using literal_escapes [of "New_Lexer ?c" "CHR ''n''" "[]" "CHR 0x0A"] by blast
  then have 1: "readChar (New_Lexer ?c)
     = Returned (\<lparr>Type = CharConst, Value = [CHR 0x0A], Line = 1, Column = 1\<rparr>,
                 advance (advance (advance (advance (New_Lexer ?c)))))"
    using at_input_New_Lexer [of ?c] by (simp add: char_escape_def New_Lexer_line_column)
  let ?s = "[CHR 0x22, CHR ''a'', CHR 0x5C, CHR 0x22, CHR 0x22]"
  let ?ps = "[Plain (CHR ''a''), Escape (CHR 0x22)]"
  have "at_input (New_Lexer ?s) (CHR 0x22 # concat (map piece_source ?ps) @ CHR 0x22 # [])
          \<and> list_all piece_ok ?ps \<longrightarrow>
        (\<exists>l1. readString (New_Lexer ?s)
                = Returned (\<lparr>Type = STRING, Value = concat (map piece_value ?ps),
                              Line = line (New_Lexer ?s), Column = column (New_Lexer ?s)\<rparr>, l1)
              \<and> at_input l1 [])"
    using literal_escapes [of "New_Lexer ?s" _ "[]" _ _ ?ps] by blast
  then have 2: "\<exists>l1. readString (New_Lexer ?s)
               = Returned (\<lparr>Type = STRING, Value = [CHR ''a'', CHR 0x22], Line = 1, Column = 1\<rparr>, l1)"
    using at_input_New_Lexer [of ?s]
    by (auto simp: string_escape_def rune_string_def New_Lexer_line_column)
  let ?x = "[CHR 0x27, CHR 0x5C, CHR ''x'', CHR 0x27]"
  have "at_input (New_Lexer ?x) (CHR 0x27 # CHR 0x5C # [CHR ''x'', CHR 0x27])
          \<and> char_escape (peek0 [CHR ''x'', CHR 0x27]) = None \<longrightarrow>
        (\<exists>ln cl. readChar (New_Lexer ?x) = Panicked (InvalidEscape (peek0 [CHR ''x'', CHR 0x27]) ln cl))"
    using literal_escapes [of "New_Lexer ?x" _ "[CHR ''x'', CHR 0x27]"] by blast
  then have 3: "\<exists>ln cl. readChar (New_Lexer ?x) = Panicked (InvalidEscape (CHR ''x'') ln cl)"
    using at_input_New_Lexer [of ?x] by (simp add: char_escape_def peek0_def)
  let ?u = "[CHR 0x22, CHR ''a'']"
  have "at_input (New_Lexer ?u) (CHR 0x22 # concat (map piece_source [Plain (CHR ''a'')]) @ [])
          \<and> list_all piece_ok [Plain (CHR ''a'')] \<and> peek0 [] = CHR 0x00 \<longrightarrow>
        readString (New_Lexer ?u)
          = Panicked (UnclosedString (line (New_Lexer ?u)) (column (New_Lexer ?u)))"
    using literal_escapes [of "New_Lexer ?u" _ "[]" _ _ "[Plain (CHR ''a'')]"] by blast
  then have 4: "readString (New_Lexer ?u) = Panicked (UnclosedString 1 1)"
    using at_input_New_Lexer [of ?u] by (simp add: peek0_def New_Lexer_line_column)
  show ?thesis using 1 2 3 4 by blast
qed

theorem foreign_quote_escape_counterexample:
  "readChar (New_Lexer [CHR 0x27, CHR 0x5C, CHR 0x22, CHR 0x27])
     = Panicked (InvalidEscape (CHR 0x22) 1 3)
   \<and> readString (New_Lexer [CHR 0x22, CHR 0x5C, CHR 0x27, CHR 0x22])
     = Panicked (InvalidEscape (CHR 0x27) 1 3)"
  by (simp add: readChar_def readString_def readString_loop.simps New_Lexer_def advance_def Let_def)

section \<open>From source text to result\<close>

lemma IsDigit_other:
  "IsDigit c \<Longrightarrow> \<not> IsSpace c \<and> \<not> IsLetter c \<and> c \<noteq> CHR 0x27 \<and> c \<noteq> CHR 0x22 \<and> c \<noteq> CHR 0x00"
  by (auto simp: IsDigit_def IsSpace_def IsLetter_def)

lemma skipWhitespace_at:
  "at_input l (ws @ rest) \<Longrightarrow> blank ws \<Longrightarrow> \<not> IsSpace (peek0 rest) \<Longrightarrow>
   at_input (skipWhitespace l) rest"
proof (induction ws arbitrary: l)
  case Nil
  then have "\<not> IsSpace (currentChar l)" by (simp add: at_input_def)
  then show ?case using Nil by (simp add: skipWhitespace.simps [of l])
next
  case (Cons w ws)
  have a: "at_input l (w # ws @ rest)" using Cons.prems(1) by simp
  have "IsSpace (currentChar l)" using at_input_cur [OF a] Cons.prems(2) by (simp add: blank_def)
  then have "skipWhitespace l = skipWhitespace (advance l)" by (simp add: skipWhitespace.simps [of l])
  then show ?case
    using Cons.IH [OF at_input_advance [OF a]] Cons.prems(2,3) by (simp add: blank_def)
qed

lemma NextToken_skip:
  assumes "at_input l (ws @ rest)" "blank ws" "\<not> IsSpace (peek0 rest)"
  shows "\<exists>l0. NextToken l = NextToken l0 \<and> at_input l0 rest"
proof (cases ws)
  case Nil
  then show ?thesis using assms(1) by auto
next
  case (Cons w ws')
  then have a: "at_input l (w # ws' @ rest)" using assms(1) by simp
  have sp: "IsSpace (currentChar l)" using at_input_cur [OF a] assms(2) Cons by (simp add: blank_def)
  then have "NextToken l = NextToken (skipWhitespace l)"
    using IsSpace_not_NUL [OF sp] by (simp add: NextToken.simps [of l])
  then show ?thesis using skipWhitespace_at [OF assms] by blast
qed

lemma readNumber_loop_at:
  "at_input l (ds @ rest) \<Longrightarrow> list_all IsDigit ds \<Longrightarrow> \<not> IsDigit (peek0 rest) \<Longrightarrow>
   at_input (readNumber_loop l) rest \<and> pos (readNumber_loop l) = pos l + length ds
   \<and> input (readNumber_loop l) = input l"
proof (induction ds arbitrary: l)
  case Nil
  then have "\<not> IsDigit (currentChar l)" by (simp add: at_input_def)
  then show ?case using Nil by (simp add: readNumber_loop.simps [of l])
next
  case (Cons d ds)
  have a: "at_input l (d # ds @ rest)" using Cons.prems(1) by simp
  have "IsDigit (currentChar l)" using at_input_cur [OF a] Cons.prems(2) by simp
  then have "readNumber_loop l = readNumber_loop (advance l)"
    by (simp add: readNumber_loop.simps [of l])
  then show ?case
    using Cons.IH [OF at_input_advance [OF a]] Cons.prems(2,3) by (simp add: advance_pos_input)
qed

lemma readNumber_at:
  assumes "at_input l (ds @ rest)" "list_all IsDigit ds" "\<not> IsDigit (peek0 rest)"
  shows "\<exists>l1. readNumber l = Returned (\<lparr>Type = NUMBER, Value = ds, Line = line l, Column = column l\<rparr>, l1)
             \<and> at_input l1 rest"
proof -
  let ?l1 = "readNumber_loop l"
  have 1: "at_input ?l1 rest" "pos ?l1 = pos l + length ds" "input ?l1 = input l"
    using readNumber_loop_at [OF assms] by simp_all
  have le: "pos l + length ds \<le> length (input l)"
    using 1 by (simp add: at_input_def)
  have "drop (pos l) (input l) = ds @ rest" using assms(1) by (simp add: at_input_def)
  then have "take (length ds) (drop (pos l) (input l)) = ds" by simp
  then have "slice (input ?l1) (pos l) (pos ?l1) = Returned ds"
    using 1 le by (simp add: slice_def)
  then show ?thesis using 1(1) by (auto simp: readNumber_def Let_def)
qed

lemma NextToken_number:
  assumes "at_input l (ws @ ds @ rest)" "blank ws" "numeral_text ds" "\<not> IsDigit (peek0 rest)"
  shows "\<exists>t l1. NextToken l = Returned (t, l1) \<and> Type t = NUMBER \<and> Value t = ds \<and> at_input l1 rest"
proof -
  obtain d ds' where ds: "ds = d # ds'" and d: "IsDigit d" and all: "list_all IsDigit ds"
    using assms(3) by (cases ds) (auto simp: numeral_text_def)
  have "\<not> IsSpace (peek0 (ds @ rest))" using IsDigit_other [OF d] ds by (simp add: peek0_def)
  then obtain l0 where n: "NextToken l = NextToken l0" and a: "at_input l0 (ds @ rest)"
    using NextToken_skip [OF assms(1,2)] by blast
  have cur: "currentChar l0 = d" using a ds by (simp add: at_input_def peek0_def)
  have "NextToken l0 = readNumber l0"
    using IsDigit_other [OF d] d cur by (simp add: NextToken.simps [of l0])
  then show ?thesis
    using n readNumber_at [OF a all assms(4)] by auto
qed

lemma NextToken_operator:
  assumes "at_input l (ws @ c # rest)" "blank ws" "c = CHR ''+'' \<or> c = CHR ''-''"
  shows "\<exists>t l1. NextToken l = Returned (t, l1)
               \<and> Type t = (if c = CHR ''+'' then PLUS else MINUS) \<and> Value t = [c]
               \<and> at_input l1 rest"
proof -
  have c: "\<not> IsSpace c" "\<not> IsLetter c" "\<not> IsDigit c" "c \<noteq> CHR 0x27" "c \<noteq> CHR 0x22" "c \<noteq> CHR 0x00"
    using assms(3) by (auto simp: IsSpace_def IsLetter_def IsDigit_def)
  have "\<not> IsSpace (peek0 (c # rest))" using c by (simp add: peek0_def)
  then obtain l0 where n: "NextToken l = NextToken l0" and a: "at_input l0 (c # rest)"
    using NextToken_skip [OF assms(1,2)] by blast
  have cur: "currentChar l0 = c" using at_input_cur [OF a] .
  have "NextToken l0 = operator_token l0"
    using c cur by (simp add: NextToken.simps [of l0])
  also have "\<dots> = Returned (\<lparr>Type = (if c = CHR ''+'' then PLUS else MINUS), Value = [c],
                               Line = line l0, Column = column l0\<rparr>, advance l0)"
    using assms(3) cur by (auto simp: operator_token_def Let_def)
  finally show ?thesis using n at_input_advance [OF a] by auto
qed

lemma NextToken_end:
  assumes "at_input l ws" "blank ws"
  shows "\<exists>t l1. NextToken l = Returned (t, l1) \<and> Type t = EOF \<and> at_input l1 []"
proof -
  have "\<not> IsSpace (peek0 [])" by (simp add: peek0_def IsSpace_def)
  then obtain l0 where n: "NextToken l = NextToken l0" and a: "at_input l0 []"
    using NextToken_skip [of l ws "[]"] assms by auto
  have "currentChar l0 = CHR 0x00" using a by (simp add: at_input_def peek0_def)
  then show ?thesis using n a NextToken_at_end [of l0] by auto
qed

lemma IsDigit_int: "IsDigit c \<Longrightarrow> 48 \<le> (of_char c :: int) \<and> (of_char c :: int) \<le> 57"
proof -
  assume "IsDigit c"
  then have "48 \<le> int (of_char c)" "int (of_char c) \<le> 57" by (simp_all add: IsDigit_def)
  then show ?thesis by (simp only: of_nat_of_char)
qed

lemma decimal_mono:
  "0 \<le> (n::int) \<Longrightarrow> list_all IsDigit ds \<Longrightarrow> n \<le> foldl (\<lambda>n c. 10 * n + (of_char c - 48)) n ds"
proof (induction ds arbitrary: n)
  case Nil
  then show ?case by simp
next
  case (Cons c ds)
  have c: "(48::int) \<le> of_char c" using Cons.prems(2) IsDigit_int [of c] by simp
  have "n \<le> 10 * n + (of_char c - 48)" using Cons.prems(1) c by simp
  moreover have "10 * n + (of_char c - 48) \<le> foldl (\<lambda>n c. 10 * n + (of_char c - 48)) (10 * n + (of_char c - 48)) ds"
    using Cons.prems c by (intro Cons.IH) simp_all
  ultimately show ?case by simp
qed

lemma digit_value_digit:
  "IsDigit c \<Longrightarrow> digit_value c = Some (of_char c - 48) \<and> c \<noteq> CHR ''_''
     \<and> (0::int) \<le> of_char c - 48 \<and> (of_char c :: int) - 48 < 10"
  using IsDigit_int [of c] by (auto simp: digit_value_def IsDigit_def)

lemma ParseUint_loop_decimal:
  assumes "list_all IsDigit ds" "0 \<le> (n::int)"
    and "foldl (\<lambda>n c. 10 * n + (of_char c - 48)) n ds < 2 ^ 64"
  shows "ParseUint_loop 10 ((2 ^ 64 - 1) div 10 + 1) ds n u
           = Inr (foldl (\<lambda>n c. 10 * n + (of_char c - 48)) n ds, u)"
  using assms
proof (induction ds arbitrary: n)
  case Nil
  then show ?case by simp
next
  case (Cons c ds)
  let ?d = "of_char c - 48 :: int"
  let ?n1 = "10 * n + ?d"
  have c: "IsDigit c" and ds: "list_all IsDigit ds" using Cons.prems(1) by simp_all
  have dv: "digit_value c = Some ?d" "c \<noteq> CHR ''_''" "0 \<le> ?d" "?d < 10"
    using digit_value_digit [OF c] by simp_all
  have n1: "0 \<le> ?n1" using Cons.prems(2) dv by simp
  have "?n1 \<le> foldl (\<lambda>n c. 10 * n + (of_char c - 48)) ?n1 ds"
    using decimal_mono [OF n1 ds] .
  then have small: "?n1 < 2 ^ 64" using Cons.prems(3) by simp
  then have cut: "\<not> (2 ^ 64 - 1) div 10 + 1 \<le> n" using dv Cons.prems(2) by simp
  have m0: "(n * 10) mod 2 ^ 64 = 10 * n" using small dv Cons.prems(2) by simp
  have m1: "(10 * n + ?d) mod 2 ^ 64 = ?n1" using small n1 by simp
  have "ParseUint_loop 10 ((2 ^ 64 - 1) div 10 + 1) (c # ds) n u
          = ParseUint_loop 10 ((2 ^ 64 - 1) div 10 + 1) ds ?n1 u"
    using dv cut small n1 by (simp add: Let_def m0 m1 del: power_numeral)
  then show ?case
    using Cons.IH [OF ds n1] Cons.prems(3) by simp
qed

lemma ParseInt_literal: "literal d \<Longrightarrow> ParseInt d = Inr (word_of_int (decimal d))"
proof -
  assume l: "literal d"
  then obtain c cs where d: "d = c # cs" and c: "IsDigit c" and all: "list_all IsDigit d"
    by (cases d) (auto simp: literal_def numeral_text_def)
  have sign: "c \<noteq> CHR ''+''" "c \<noteq> CHR ''-''" using c by (auto simp: IsDigit_def)
  have small: "decimal d < 2 ^ 63" using l by (simp add: literal_def)
  have nonneg: "0 \<le> decimal d"
    using decimal_mono [of 0 d] all by (simp add: decimal_def)
  have u: "ParseUint d = Inr (decimal d)"
  proof (cases "c = CHR ''0''")
    case True
    then have "d = ''0''" using l d by (simp add: literal_def)
    then show ?thesis by (simp add: ParseUint_def decimal_def)
  next
    case False
    have "foldl (\<lambda>n c. 10 * n + (of_char c - 48)) (0::int) d < 2 ^ 64"
      using small by (simp add: decimal_def)
    then have "ParseUint_loop 10 ((2 ^ 64 - 1) div 10 + 1) d 0 False = Inr (decimal d, False)"
      using ParseUint_loop_decimal [OF all, of 0 False] by (simp add: decimal_def)
    then show ?thesis using False d by (simp add: ParseUint_def del: power_numeral)
  qed
  show ?thesis
    using u d sign small by (simp add: ParseInt_def del: power_numeral)
qed

lemma item_ok_wf: "item_ok it \<Longrightarrow> item_wf it"
  by (simp add: item_ok_def item_wf_def literal_def)

lemma items_ok_wf: "list_all item_ok its \<Longrightarrow> list_all item_wf its"
  by (induction its) (simp_all add: item_ok_wf)

lemma not_digit_ahead:
  assumes "list_all item_wf its" "blank wend"
  shows "\<not> IsDigit (peek0 (concat (map render_item its) @ wend))"
proof (cases its)
  case Nil
  then show ?thesis
    using assms(2) by (cases wend) (auto simp: peek0_def blank_def IsDigit_def IsSpace_def)
next
  case (Cons it its')
  then have ok: "item_wf it" using assms(1) by simp
  show ?thesis
  proof (cases "ws_before it")
    case Nil
    then show ?thesis
      using ok Cons by (auto simp: render_item_def item_wf_def peek0_def IsDigit_def)
  next
    case (Cons w ws)
    then have "IsSpace w" using ok by (simp add: item_wf_def blank_def)
    then show ?thesis
      using Cons \<open>its = it # its'\<close> by (auto simp: render_item_def peek0_def IsDigit_def IsSpace_def)
  qed
qed

lemma NextToken_ahead:
  assumes "at_input l (concat (map render_item its) @ wend)" "list_all item_wf its" "blank wend"
  shows "\<exists>t l1. NextToken l = Returned (t, l1)
               \<and> ahead (p\<lparr>curToken := c, peekToken := t, lexer := l1\<rparr>) its wend"
proof (cases its)
  case Nil
  then show ?thesis using NextToken_end [of l wend] assms by auto
next
  case (Cons it its')
  then have ok: "item_wf it" using assms(2) by simp
  have a: "at_input l (ws_before it @ item_op it #
             (ws_after it @ item_digits it @ concat (map render_item its') @ wend))"
    using assms(1) Cons by (simp add: render_item_def)
  obtain t l1 where "NextToken l = Returned (t, l1)"
    "Type t = (if item_op it = CHR ''+'' then PLUS else MINUS)" "Value t = [item_op it]"
    "at_input l1 (ws_after it @ item_digits it @ concat (map render_item its') @ wend)"
    using NextToken_operator [OF a] ok by (auto simp: item_wf_def)
  then show ?thesis using Cons by (auto simp: op_type_def)
qed

lemma nextToken_number_then_ahead:
  assumes "at_input (lexer p) (w @ d @ concat (map render_item its) @ wend)"
    and "blank w" "numeral_text d" "list_all item_wf its" "blank wend"
  shows "\<exists>p1 p2. nextToken p = Returned p1 \<and> nextToken p1 = Returned p2
           \<and> curToken p1 = peekToken p \<and> errors p2 = errors p
           \<and> Type (curToken p2) = NUMBER \<and> Value (curToken p2) = d \<and> ahead p2 its wend"
proof -
  have nt: "numeral_text d" using assms(3) .
  obtain t l1 where t: "NextToken (lexer p) = Returned (t, l1)" "Type t = NUMBER" "Value t = d"
    and l1: "at_input l1 (concat (map render_item its) @ wend)"
    using NextToken_number [OF assms(1,2) nt not_digit_ahead [OF assms(4,5)]] by blast
  let ?p1 = "p\<lparr>curToken := peekToken p, peekToken := t, lexer := l1\<rparr>"
  have 1: "nextToken p = Returned ?p1" using t by (simp add: nextToken_def)
  obtain t2 l2 where t2: "NextToken l1 = Returned (t2, l2)"
    and ah: "ahead (?p1\<lparr>curToken := t, peekToken := t2, lexer := l2\<rparr>) its wend"
    using NextToken_ahead [OF l1 assms(4,5), where p = ?p1 and c = t] by blast
  let ?p2 = "?p1\<lparr>curToken := t, peekToken := t2, lexer := l2\<rparr>"
  have 2: "nextToken ?p1 = Returned ?p2" using t2 by (simp add: nextToken_def)
  show ?thesis
    using 1 2 t ah by (intro exI [of _ ?p1] exI [of _ ?p2]) simp
qed

lemma parseIntegerLiteral_literal:
  "Value (curToken p) = d \<Longrightarrow> literal d \<Longrightarrow>
   parseIntegerLiteral p = (IntegerLiteral (curToken p) (word_of_int (decimal d)), p)"
  by (simp add: parseIntegerLiteral_def ParseInt_literal)

lemma parse_loop_items:
  assumes "ahead p items wend" "list_all item_ok items" "blank wend" "additive left"
  shows "\<exists>tree p1. parseExpression_loop p left = Returned (tree, p1) \<and> errors p1 = errors p
           \<and> additive tree \<and> lits tree = lits left @ map item_value items
           \<and> eval tree = foldl apply_item (eval left) items
           \<and> shape tree = foldl grow (shape left) items"
  using assms
proof (induction items arbitrary: p left)
  case Nil
  then show ?case by (simp add: parseExpression_loop.simps [of p left])
next
  case (Cons it its)
  have ok: "item_ok it" and oks: "list_all item_ok its" using Cons.prems(2) by simp_all
  have wfs: "list_all item_wf its" using items_ok_wf [OF oks] .
  have opc: "item_op it = CHR ''+'' \<or> item_op it = CHR ''-''" using ok by (simp add: item_ok_def)
  have pk: "Type (peekToken p) = PLUS \<or> Type (peekToken p) = MINUS"
    and pv: "Value (peekToken p) = [item_op it]"
    and at: "at_input (lexer p) (ws_after it @ item_digits it @ concat (map render_item its) @ wend)"
    using Cons.prems(1) by (auto simp: op_type_def)
  obtain p1 p2 where n1: "nextToken p = Returned p1" and n2: "nextToken p1 = Returned p2"
    and c1: "curToken p1 = peekToken p" and e2: "errors p2 = errors p"
    and v2: "Value (curToken p2) = item_digits it" and ah: "ahead p2 its wend"
    using nextToken_number_then_ahead [OF at _ _ wfs Cons.prems(3)] ok
    by (auto simp: item_ok_def literal_def)
  let ?right = "IntegerLiteral (curToken p2) (item_value it)"
  let ?left1 = "InfixExpression (curToken p1) left [item_op it] ?right"
  have lit: "parseIntegerLiteral p2 = (?right, p2)"
    using parseIntegerLiteral_literal [OF v2] ok by (simp add: item_ok_def item_value_def)
  have ie: "parseInfixExpression p1 left = Returned (?left1, p2)"
    using n2 lit c1 pv by (simp add: parseInfixExpression_def)
  have step: "parseExpression_loop p left = parseExpression_loop p2 ?left1"
    using pk n1 ie by (simp add: parseExpression_loop.simps [of p left])
  have add1: "additive ?left1" using opc Cons.prems(4) by auto
  have ev1: "eval ?left1 = apply_item (eval left) it"
    using opc by (auto simp: apply_item_def)
  have sh1: "shape ?left1 = grow (shape left) it"
    by (simp add: grow_def)
  obtain tree p3 where "parseExpression_loop p2 ?left1 = Returned (tree, p3)"
    "errors p3 = errors p2" "additive tree" "lits tree = lits ?left1 @ map item_value its"
    "eval tree = foldl apply_item (eval ?left1) its"
    "shape tree = foldl grow (shape ?left1) its"
    using Cons.IH [OF ah oks Cons.prems(3) add1] by blast
  then show ?case
    using step e2 ev1 sh1 by (intro exI [of _ tree] exI [of _ p3]) simp
qed

lemma ParseProgram_source:
  assumes "blank w0" "literal d0" "list_all item_ok items" "blank wend"
  shows "\<exists>p tree p1. New_Parser (New_Lexer (source w0 d0 items wend)) = Returned p
           \<and> errors p = []
           \<and> ParseProgram p = Returned (Program tree, p1) \<and> errors p1 = []
           \<and> additive tree \<and> lits tree = word_of_int (decimal d0) # map item_value items
           \<and> eval tree = left_to_right d0 items
           \<and> shape tree
               = foldl grow (IntegerLiteral zero_Token (word_of_int (decimal d0))) items"
proof -
  let ?p0 = "\<lparr>lexer = New_Lexer (source w0 d0 items wend), errors = [], curToken = zero_Token,
              peekToken = zero_Token\<rparr>"
  have at: "at_input (lexer ?p0) (w0 @ d0 @ concat (map render_item items) @ wend)"
    using at_input_New_Lexer [of "source w0 d0 items wend"] by (simp add: source_def)
  obtain p1 p2 where n1: "nextToken ?p0 = Returned p1" and n2: "nextToken p1 = Returned p2"
    and e2: "errors p2 = errors ?p0"
    and v2: "Value (curToken p2) = d0" and ah: "ahead p2 items wend"
    using nextToken_number_then_ahead [OF at assms(1) _ items_ok_wf [OF assms(3)] assms(4)] assms(2)
    by (auto simp: literal_def)
  have new: "New_Parser (New_Lexer (source w0 d0 items wend)) = Returned p2"
    using n1 n2 by (simp add: New_Parser_def)
  let ?left = "IntegerLiteral (curToken p2) (word_of_int (decimal d0))"
  have lit: "parseIntegerLiteral p2 = (?left, p2)"
    using parseIntegerLiteral_literal [OF v2 assms(2)] .
  obtain tree p3 where loop: "parseExpression_loop p2 ?left = Returned (tree, p3)"
    and e3: "errors p3 = errors p2" and add: "additive tree"
    and li: "lits tree = lits ?left @ map item_value items"
    and ev: "eval tree = foldl apply_item (eval ?left) items"
    and sh: "shape tree = foldl grow (shape ?left) items"
    using parse_loop_items [OF ah assms(3,4), of ?left] by auto
  have "ParseProgram p2 = Returned (Program tree, p3)"
    using lit loop by (simp add: ParseProgram_def parseExpression_def)
  then show ?thesis
    using new e2 e3 add li ev sh by (auto simp: left_to_right_def)
qed

text \<open>
  Claim C1, as the code has it.  For a source text of decimal literals without a leading
  zero (or \<open>0\<close> itself), each at most \<open>2^63 - 1\<close>, at most 65536 of them, separated
  by \<open>+\<close>/\<open>-\<close> and white space, the pipeline ends with the stack top equal to the
  evaluation of the literals from left to right over \<open>int64\<close>.
\<close>

theorem pipeline_evaluates_left_to_right:
  assumes "blank w0" "literal d0" "list_all item_ok items" "blank wend"
    and "length items < 65536"
  shows "main (source w0 d0 items wend) = Returned (Result (Int64 (left_to_right d0 items)))"
proof -
  obtain p tree p1 where new: "New_Parser (New_Lexer (source w0 d0 items wend)) = Returned p"
    and parse: "ParseProgram p = Returned (Program tree, p1)" and noerr: "errors p1 = []"
    and add: "additive tree" and li: "lits tree = word_of_int (decimal d0) # map item_value items"
    and ev: "eval tree = left_to_right d0 items"
    using ParseProgram_source [OF assms(1-4)] by blast
  have a: "arith_tree tree" and d: "int (depth tree) \<le> StackSize"
    using additive_arith [OF add] by (simp_all add: StackSize_def)
  obtain c vm1 where comp: "Compile New_Compiler (Program tree) = Returned (None, c)"
    and run: "Run (New_VM (Bytecode_of c)) = Returned (None, vm1)"
    and top: "StackTop vm1 = Returned (Int64 (loaded (map Int64 (lits tree)) 0 tree))"
    using run_compiled [OF a d] by blast
  have "loaded ([] @ map Int64 (lits tree) @ []) 0 tree = eval tree"
    using assms(5) li by (intro loaded_eval [OF a]) simp_all
  then have val: "StackTop vm1 = Returned (Int64 (left_to_right d0 items))"
    using top ev by simp
  show ?thesis
    by (simp add: main_def new parse comp run noerr val del: Compile.simps)
qed

theorem pipeline_evaluates_left_to_right_witness:
  "source [] ''12'' source_12_7_5 [] = ''12 + 7 - 5''
   \<and> literal ''12'' \<and> list_all item_ok source_12_7_5
   \<and> main ''12 + 7 - 5'' = Returned (Result (Int64 14))"
proof -
  have b: "blank []" by (simp add: blank_def)
  have l: "literal ''12''" by (simp add: literal_def numeral_text_def IsDigit_def decimal_def)
  have i: "list_all item_ok source_12_7_5"
    by (simp add: source_12_7_5_def item_ok_def blank_def IsSpace_def literal_def
          numeral_text_def IsDigit_def decimal_def)
  have n: "length source_12_7_5 < 65536" by (simp add: source_12_7_5_def)
  have s: "source [] ''12'' source_12_7_5 [] = ''12 + 7 - 5''"
    by (simp add: source_def source_12_7_5_def render_item_def)
  have v: "left_to_right ''12'' source_12_7_5 = 14"
    by (simp add: left_to_right_def source_12_7_5_def apply_item_def item_value_def decimal_def)
  show ?thesis
    using pipeline_evaluates_left_to_right [OF b l i b n] l i s v by simp
qed

text \<open>
  A literal with a leading zero is read in base eight: \<open>08\<close> is reported as a parse
  error, and \<open>010 + 1\<close> evaluates to 9.
\<close>

theorem leading_zero_literal_counterexample:
  "main ''08 + 1'' = Returned (ParseErrors [CouldNotParseAsInteger ''08''])
   \<and> main ''010 + 1'' = Returned (Result (Int64 9))"
  by code_simp

lemma parseIntegerLiteral_cases:
  assumes "parseIntegerLiteral p = (x, p1)"
  shows "(\<exists>v. ParseInt (Value (curToken p)) = Inr v \<and> x = IntegerLiteral (curToken p) v \<and> p1 = p)
       \<or> (isl (ParseInt (Value (curToken p))) \<and> x = NilNode
           \<and> p1 = p\<lparr>errors := errors p @ [CouldNotParseAsInteger (Value (curToken p))]\<rparr>)"
  using assms by (auto simp: parseIntegerLiteral_def split: sum.splits)

lemma parseIntegerLiteral_errors:
  assumes "parseIntegerLiteral p = (x, p1)"
  shows "\<exists>texts. errors p1 = errors p @ map CouldNotParseAsInteger texts
           \<and> list_all (\<lambda>s. isl (ParseInt s)) texts
           \<and> length texts = length (filter (\<lambda>y. y = NilNode) [x])
           \<and> operand_ok x \<and> operands x = [x]"
proof -
  consider (ok) v where "ParseInt (Value (curToken p)) = Inr v" "x = IntegerLiteral (curToken p) v" "p1 = p"
    | (bad) "isl (ParseInt (Value (curToken p)))" "x = NilNode"
        "p1 = p\<lparr>errors := errors p @ [CouldNotParseAsInteger (Value (curToken p))]\<rparr>"
    using parseIntegerLiteral_cases [OF assms] by blast
  then show ?thesis
  proof cases
    case ok
    then show ?thesis by (intro exI [of _ "[]"]) simp
  next
    case bad
    then show ?thesis by (intro exI [of _ "[Value (curToken p)]"]) simp
  qed
qed

lemma nextToken_errors: "nextToken p = Returned p1 \<Longrightarrow> errors p1 = errors p"
  by (auto simp: nextToken_def split: outcome.splits prod.splits)

lemma parseExpression_loop_errors:
  "parseExpression_loop p left = Returned (e, p1) \<Longrightarrow>
   \<exists>texts rs. errors p1 = errors p @ map CouldNotParseAsInteger texts
     \<and> list_all (\<lambda>s. isl (ParseInt s)) texts
     \<and> operands e = operands left @ rs
     \<and> length texts = length (filter (\<lambda>y. y = NilNode) rs)
     \<and> list_all operand_ok rs"
proof (induction p left rule: parseExpression_loop.induct)
  case (1 p left)
  show ?case
  proof (cases "Type (peekToken p) = PLUS \<or> Type (peekToken p) = MINUS")
    case False
    then have "e = left" "p1 = p"
      using "1.prems" by (simp_all add: parseExpression_loop.simps [of p left])
    then show ?thesis by (intro exI [of _ "[]"]) simp
  next
    case True
    obtain pa left1 pb where na: "nextToken p = Returned pa"
      and ie: "parseInfixExpression pa left = Returned (left1, pb)"
      and rest: "parseExpression_loop pb left1 = Returned (e, p1)"
      using "1.prems" True
      by (auto simp: parseExpression_loop.simps [of p left] split: outcome.splits prod.splits)
    obtain pc right where nc: "nextToken pa = Returned pc"
      and pl: "parseIntegerLiteral pc = (right, pb)"
      and l1: "left1 = InfixExpression (curToken pa) left (Value (curToken pa)) right"
      using ie by (auto simp: parseInfixExpression_def Let_def split: outcome.splits prod.splits)
    obtain t0 where t0: "errors pb = errors pc @ map CouldNotParseAsInteger t0"
      "list_all (\<lambda>s. isl (ParseInt s)) t0"
      "length t0 = length (filter (\<lambda>y. y = NilNode) [right])" "operand_ok right"
      using parseIntegerLiteral_errors [OF pl] by blast
    obtain texts rs where ih: "errors p1 = errors pb @ map CouldNotParseAsInteger texts"
      "list_all (\<lambda>s. isl (ParseInt s)) texts" "operands e = operands left1 @ rs"
      "length texts = length (filter (\<lambda>y. y = NilNode) rs)" "list_all operand_ok rs"
      using "1.IH" [OF True na _ _ rest] ie by auto
    have e0: "errors pc = errors p"
      using nextToken_errors [OF na] nextToken_errors [OF nc] by simp
    show ?thesis
      using t0 ih e0 l1
      by (intro exI [of _ "t0 @ texts"] exI [of _ "right # rs"]) simp
  qed
qed

lemma ParseProgram_errors:
  assumes "ParseProgram p = Returned (prog, p1)"
  shows "\<exists>e texts. prog = Program e
           \<and> errors p1 = errors p @ map CouldNotParseAsInteger texts
           \<and> list_all (\<lambda>s. isl (ParseInt s)) texts
           \<and> length texts = length (filter (\<lambda>y. y = NilNode) (operands e))
           \<and> list_all operand_ok (operands e)"
proof -
  obtain e where prog: "prog = Program e" and pe: "parseExpression p = Returned (e, p1)"
    using assms by (auto simp: ParseProgram_def split: outcome.splits prod.splits)
  obtain left p0 where pl: "parseIntegerLiteral p = (left, p0)"
    and loop: "parseExpression_loop p0 left = Returned (e, p1)"
    using pe by (auto simp: parseExpression_def Let_def split: prod.splits)
  obtain t0 where t0: "errors p0 = errors p @ map CouldNotParseAsInteger t0"
    "list_all (\<lambda>s. isl (ParseInt s)) t0"
    "length t0 = length (filter (\<lambda>y. y = NilNode) [left])" "operand_ok left" "operands left = [left]"
    using parseIntegerLiteral_errors [OF pl] by blast
  obtain texts rs where l: "errors p1 = errors p0 @ map CouldNotParseAsInteger texts"
    "list_all (\<lambda>s. isl (ParseInt s)) texts" "operands e = operands left @ rs"
    "length texts = length (filter (\<lambda>y. y = NilNode) rs)" "list_all operand_ok rs"
    using parseExpression_loop_errors [OF loop] by blast
  show ?thesis
    using prog t0 l by (intro exI [of _ e] exI [of _ "t0 @ texts"]) simp
qed

lemma New_Parser_errors: "New_Parser l = Returned p \<Longrightarrow> errors p = []"
  by (auto simp: New_Parser_def dest!: nextToken_errors split: outcome.splits)

lemma ahead_errors: "ahead (p\<lparr>errors := x\<rparr>) its wend = ahead p its wend"
  by (cases its) simp_all

lemma parseIntegerLiteral_converted:
  "parseIntegerLiteral p =
     (case converted (Value (curToken p)) of
        Some v \<Rightarrow> (IntegerLiteral (curToken p) v, p)
      | None \<Rightarrow> (NilNode, p\<lparr>errors := errors p @ [CouldNotParseAsInteger (Value (curToken p))]\<rparr>))"
  by (simp add: parseIntegerLiteral_def converted_def split: sum.splits)

lemma parseIntegerLiteral_text:
  assumes "Value (curToken p) = d" "ahead p its wend"
  shows "\<exists>x p1. parseIntegerLiteral p = (x, p1)
           \<and> operands x = [x] \<and> operand_value x = converted d
           \<and> errors p1 = errors p @ map CouldNotParseAsInteger (filter (\<lambda>d. converted d = None) [d])
           \<and> curToken p1 = curToken p \<and> ahead p1 its wend"
  using assms
  by (cases "converted d") (simp_all add: parseIntegerLiteral_converted ahead_errors)

lemma parse_loop_texts:
  assumes "ahead p items wend" "list_all item_wf items" "blank wend"
  shows "\<exists>tree p1. parseExpression_loop p left = Returned (tree, p1)
           \<and> errors p1 = errors p @ map CouldNotParseAsInteger
                                     (filter (\<lambda>d. converted d = None) (map item_digits items))
           \<and> map operand_value (operands tree)
               = map operand_value (operands left) @ map converted (map item_digits items)
           \<and> Type (peekToken p1) = EOF"
  using assms
proof (induction items arbitrary: p left)
  case Nil
  then show ?case by (simp add: parseExpression_loop.simps [of p left])
next
  case (Cons it its)
  have ok: "item_wf it" and oks: "list_all item_wf its" using Cons.prems(2) by simp_all
  have pk: "Type (peekToken p) = PLUS \<or> Type (peekToken p) = MINUS"
    and at: "at_input (lexer p) (ws_after it @ item_digits it @ concat (map render_item its) @ wend)"
    using Cons.prems(1) by (auto simp: op_type_def)
  obtain p1 p2 where n1: "nextToken p = Returned p1" and n2: "nextToken p1 = Returned p2"
    and e2: "errors p2 = errors p"
    and v2: "Value (curToken p2) = item_digits it" and ah: "ahead p2 its wend"
    using nextToken_number_then_ahead [OF at _ _ oks Cons.prems(3)] ok
    by (auto simp: item_wf_def)
  obtain right p3 where lit: "parseIntegerLiteral p2 = (right, p3)"
    and r1: "operands right = [right]" and r2: "operand_value right = converted (item_digits it)"
    and e3: "errors p3 = errors p2 @ map CouldNotParseAsInteger
                                       (filter (\<lambda>d. converted d = None) [item_digits it])"
    and ah3: "ahead p3 its wend"
    using parseIntegerLiteral_text [OF v2 ah] by blast
  let ?left1 = "InfixExpression (curToken p1) left (Value (curToken p1)) right"
  have ie: "parseInfixExpression p1 left = Returned (?left1, p3)"
    using n2 lit by (simp add: parseInfixExpression_def)
  have step: "parseExpression_loop p left = parseExpression_loop p3 ?left1"
    using pk n1 ie by (simp add: parseExpression_loop.simps [of p left])
  obtain tree p4 where l: "parseExpression_loop p3 ?left1 = Returned (tree, p4)"
    and e4: "errors p4 = errors p3 @ map CouldNotParseAsInteger
                                       (filter (\<lambda>d. converted d = None) (map item_digits its))"
    and o4: "map operand_value (operands tree)
               = map operand_value (operands ?left1) @ map converted (map item_digits its)"
    and k4: "Type (peekToken p4) = EOF"
    using Cons.IH [OF ah3 oks Cons.prems(3), of ?left1] by blast
  have e: "errors p4 = errors p @ map CouldNotParseAsInteger
                          (filter (\<lambda>d. converted d = None) (map item_digits (it # its)))"
    using e4 e3 e2 by simp
  have o: "map operand_value (operands tree)
             = map operand_value (operands left) @ map converted (map item_digits (it # its))"
    using o4 r2 by simp
  show ?case
    using step l e o k4 by (intro exI [of _ tree] exI [of _ p4]) simp
qed

lemma ParseProgram_texts:
  assumes "blank w0" "numeral_text d0" "list_all item_wf items" "blank wend"
  shows "\<exists>p tree p1. New_Parser (New_Lexer (source w0 d0 items wend)) = Returned p
           \<and> ParseProgram p = Returned (Program tree, p1)
           \<and> map operand_value (operands tree) = map converted (d0 # map item_digits items)
           \<and> errors p1 = map CouldNotParseAsInteger
                             (filter (\<lambda>d. converted d = None) (d0 # map item_digits items))
           \<and> Type (peekToken p1) = EOF"
proof -
  let ?p0 = "\<lparr>lexer = New_Lexer (source w0 d0 items wend), errors = [], curToken = zero_Token,
              peekToken = zero_Token\<rparr>"
  have at: "at_input (lexer ?p0) (w0 @ d0 @ concat (map render_item items) @ wend)"
    using at_input_New_Lexer [of "source w0 d0 items wend"] by (simp add: source_def)
  obtain p1 p2 where n1: "nextToken ?p0 = Returned p1" and n2: "nextToken p1 = Returned p2"
    and e2: "errors p2 = errors ?p0"
    and v2: "Value (curToken p2) = d0" and ah: "ahead p2 items wend"
    using nextToken_number_then_ahead [OF at assms] by blast
  have new: "New_Parser (New_Lexer (source w0 d0 items wend)) = Returned p2"
    using n1 n2 by (simp add: New_Parser_def)
  obtain left p3 where lit: "parseIntegerLiteral p2 = (left, p3)"
    and r1: "operands left = [left]" and r2: "operand_value left = converted d0"
    and e3: "errors p3 = errors p2 @ map CouldNotParseAsInteger
                                       (filter (\<lambda>d. converted d = None) [d0])"
    and ah3: "ahead p3 items wend"
    using parseIntegerLiteral_text [OF v2 ah] by blast
  obtain tree p4 where loop: "parseExpression_loop p3 left = Returned (tree, p4)"
    and e4: "errors p4 = errors p3 @ map CouldNotParseAsInteger
                                       (filter (\<lambda>d. converted d = None) (map item_digits items))"
    and o4: "map operand_value (operands tree)
               = map operand_value (operands left) @ map converted (map item_digits items)"
    and k4: "Type (peekToken p4) = EOF"
    using parse_loop_texts [OF ah3 assms(3,4), of left] by blast
  have pp: "ParseProgram p2 = Returned (Program tree, p4)"
    using lit loop by (simp add: ParseProgram_def parseExpression_def)
  have e: "errors p4 = map CouldNotParseAsInteger
                          (filter (\<lambda>d. converted d = None) (d0 # map item_digits items))"
    using e4 e3 e2 by simp
  have o: "map operand_value (operands tree) = map converted (d0 # map item_digits items)"
    using o4 r1 r2 by simp
  show ?thesis
    using new pp e o k4 by blast
qed

lemma converted_literal: "literal d \<Longrightarrow> converted d = Some (word_of_int (decimal d))"
  by (simp add: converted_def ParseInt_literal)

lemma parseExpression_loop_exit:
  "parseExpression_loop p left = Returned (e, p1) \<Longrightarrow>
   Type (peekToken p1) \<noteq> PLUS \<and> Type (peekToken p1) \<noteq> MINUS"
proof (induction p left rule: parseExpression_loop.induct)
  case (1 p left)
  show ?case
  proof (cases "Type (peekToken p) = PLUS \<or> Type (peekToken p) = MINUS")
    case False
    then have "p1 = p"
      using "1.prems" by (simp add: parseExpression_loop.simps [of p left])
    then show ?thesis using False by simp
  next
    case True
    obtain pa left1 pb where na: "nextToken p = Returned pa"
      and ie: "parseInfixExpression pa left = Returned (left1, pb)"
      and rest: "parseExpression_loop pb left1 = Returned (e, p1)"
      using "1.prems" True
      by (auto simp: parseExpression_loop.simps [of p left] split: outcome.splits prod.splits)
    show ?thesis using "1.IH" [OF True na _ _ rest] ie by auto
  qed
qed

lemma ParseProgram_exit:
  assumes "ParseProgram p = Returned (prog, p1)"
  shows "Type (peekToken p1) \<noteq> PLUS \<and> Type (peekToken p1) \<noteq> MINUS"
proof -
  obtain e where pe: "parseExpression p = Returned (e, p1)"
    using assms by (auto simp: ParseProgram_def split: outcome.splits prod.splits)
  obtain left p0 where "parseExpression_loop p0 left = Returned (e, p1)"
    using pe by (auto simp: parseExpression_def Let_def split: prod.splits)
  then show ?thesis using parseExpression_loop_exit by blast
qed

lemma filter_none_all:
  "(map f (filter (\<lambda>d. g d = None) ds) = []) = list_all (\<lambda>d. g d \<noteq> None) ds"
  by (induction ds) auto

text \<open>
  Claim C6, as the code has it.  When \<open>ParseProgram\<close> returns, the error list has
  grown by one message for each operand whose conversion failed: the operand is nil in
  the tree, the message quotes a text that \<open>ParseInt\<close> rejects, and every other
  operand is an integer literal with the value \<open>ParseInt\<close> gave.  A new parser has no
  errors, so after \<open>ParseProgram\<close> the list is non-empty exactly when some conversion
  failed.  Parsing goes on after a failure: \<open>ParseProgram\<close> returns only with a next
  token that is neither \<open>+\<close> nor \<open>-\<close>, and for an additive source text, whatever
  its texts of digits are, it returns at the end of the input, with one operand for each
  literal of the source, nil where the conversion failed and the converted value
  elsewhere, and with the messages of the failed literals in source order.  So the
  list is empty exactly when every literal converts under \<open>ParseInt\<close> at base 0,
  which the literals of claim C1 do.
\<close>

theorem errors_iff_failed_conversion:
  "(ParseProgram p = Returned (prog, p1) \<longrightarrow>
      (\<exists>e texts. prog = Program e
          \<and> errors p1 = errors p @ map CouldNotParseAsInteger texts
          \<and> list_all (\<lambda>s. isl (ParseInt s)) texts
          \<and> length texts = length (filter (\<lambda>y. y = NilNode) (operands e))
          \<and> list_all operand_ok (operands e)
          \<and> Type (peekToken p1) \<noteq> PLUS \<and> Type (peekToken p1) \<noteq> MINUS
          \<and> (errors p = [] \<longrightarrow> (errors p1 \<noteq> []) = (NilNode \<in> set (operands e)))))
   \<and> (New_Parser l = Returned p0 \<longrightarrow> errors p0 = [])
   \<and> (blank w0 \<and> numeral_text d0 \<and> list_all item_wf items \<and> blank wend \<longrightarrow>
        (\<exists>pa tree pb. New_Parser (New_Lexer (source w0 d0 items wend)) = Returned pa
            \<and> ParseProgram pa = Returned (Program tree, pb)
            \<and> map operand_value (operands tree) = map converted (d0 # map item_digits items)
            \<and> errors pb = map CouldNotParseAsInteger
                              (filter (\<lambda>d. converted d = None) (d0 # map item_digits items))
            \<and> Type (peekToken pb) = EOF
            \<and> (errors pb = []) = list_all (\<lambda>d. converted d \<noteq> None) (d0 # map item_digits items)))
   \<and> (literal d \<longrightarrow> converted d = Some (word_of_int (decimal d)))"
proof -
  have 1: "\<exists>e texts. prog = Program e
          \<and> errors p1 = errors p @ map CouldNotParseAsInteger texts
          \<and> list_all (\<lambda>s. isl (ParseInt s)) texts
          \<and> length texts = length (filter (\<lambda>y. y = NilNode) (operands e))
          \<and> list_all operand_ok (operands e)
          \<and> Type (peekToken p1) \<noteq> PLUS \<and> Type (peekToken p1) \<noteq> MINUS
          \<and> (errors p = [] \<longrightarrow> (errors p1 \<noteq> []) = (NilNode \<in> set (operands e)))"
    if pp: "ParseProgram p = Returned (prog, p1)"
  proof -
    obtain e texts where a: "prog = Program e"
      "errors p1 = errors p @ map CouldNotParseAsInteger texts"
      "list_all (\<lambda>s. isl (ParseInt s)) texts"
      "length texts = length (filter (\<lambda>y. y = NilNode) (operands e))"
      "list_all operand_ok (operands e)"
      using ParseProgram_errors [OF pp] by blast
    have "(texts \<noteq> []) = (NilNode \<in> set (operands e))"
      using a(4) by (metis (mono_tags, lifting) filter_empty_conv length_0_conv)
    then have b: "errors p = [] \<longrightarrow> (errors p1 \<noteq> []) = (NilNode \<in> set (operands e))"
      using a(2) by simp
    show ?thesis using a b ParseProgram_exit [OF pp] by blast
  qed
  have 3: "\<exists>pa tree pb. New_Parser (New_Lexer (source w0 d0 items wend)) = Returned pa
            \<and> ParseProgram pa = Returned (Program tree, pb)
            \<and> map operand_value (operands tree) = map converted (d0 # map item_digits items)
            \<and> errors pb = map CouldNotParseAsInteger
                              (filter (\<lambda>d. converted d = None) (d0 # map item_digits items))
            \<and> Type (peekToken pb) = EOF
            \<and> (errors pb = []) = list_all (\<lambda>d. converted d \<noteq> None) (d0 # map item_digits items)"
    if h: "blank w0 \<and> numeral_text d0 \<and> list_all item_wf items \<and> blank wend"
  proof -
    obtain pa tree pb where a: "New_Parser (New_Lexer (source w0 d0 items wend)) = Returned pa"
      "ParseProgram pa = Returned (Program tree, pb)"
      "map operand_value (operands tree) = map converted (d0 # map item_digits items)"
      "errors pb = map CouldNotParseAsInteger
                     (filter (\<lambda>d. converted d = None) (d0 # map item_digits items))"
      "Type (peekToken pb) = EOF"
      using ParseProgram_texts [of w0 d0 items wend] h by blast
    have "(errors pb = []) = list_all (\<lambda>d. converted d \<noteq> None) (d0 # map item_digits items)"
      unfolding a(4) by (rule filter_none_all)
    then show ?thesis using a by blast
  qed
  show ?thesis
    using 1 3 New_Parser_errors converted_literal by blast
qed

theorem errors_iff_failed_conversion_witness:
  "source [] ''1'' items_08_2 [] = ''1 + 08 + 2''
   \<and> numeral_text ''1'' \<and> list_all item_wf items_08_2
   \<and> (\<exists>pa tree pb. New_Parser (New_Lexer ''1 + 08 + 2'') = Returned pa \<and> errors pa = []
         \<and> ParseProgram pa = Returned (Program tree, pb)
         \<and> map operand_value (operands tree) = [Some 1, None, Some 2]
         \<and> list_all operand_ok (operands tree)
         \<and> errors pb = [CouldNotParseAsInteger ''08'']
         \<and> Type (peekToken pb) = EOF)"
proof -
  have b: "blank []" by (simp add: blank_def)
  have n: "numeral_text ''1''" by (simp add: numeral_text_def IsDigit_def)
  have i: "list_all item_wf items_08_2"
    by (simp add: items_08_2_def item_wf_def blank_def IsSpace_def numeral_text_def IsDigit_def)
  have s: "source [] ''1'' items_08_2 [] = ''1 + 08 + 2''"
    by (simp add: source_def items_08_2_def render_item_def)
  have c: "converted ''1'' = Some 1" "converted ''08'' = None" "converted ''2'' = Some 2"
    by code_simp+
  have m: "map converted (''1'' # map item_digits items_08_2) = [Some 1, None, Some 2]"
    "map CouldNotParseAsInteger
       (filter (\<lambda>d. converted d = None) (''1'' # map item_digits items_08_2))
     = [CouldNotParseAsInteger ''08'']"
    by (simp_all add: items_08_2_def c)
  have "\<exists>pa tree pb. New_Parser (New_Lexer (source [] ''1'' items_08_2 [])) = Returned pa
            \<and> ParseProgram pa = Returned (Program tree, pb)
            \<and> map operand_value (operands tree) = map converted (''1'' # map item_digits items_08_2)
            \<and> errors pb = map CouldNotParseAsInteger
                 (filter (\<lambda>d. converted d = None) (''1'' # map item_digits items_08_2))
            \<and> Type (peekToken pb) = EOF"
    using conjunct1 [OF conjunct2 [OF conjunct2
            [OF errors_iff_failed_conversion [of _ _ _ _ _ "[]" "''1''" items_08_2 "[]"]]]] b n i
    by blast
  then obtain pa tree pb where a: "New_Parser (New_Lexer ''1 + 08 + 2'') = Returned pa"
    "ParseProgram pa = Returned (Program tree, pb)"
    "map operand_value (operands tree) = [Some 1, None, Some 2]"
    "errors pb = [CouldNotParseAsInteger ''08'']"
    "Type (peekToken pb) = EOF"
    unfolding m s by (elim exE conjE)
  have e: "errors pa = []"
    using errors_iff_failed_conversion [of _ _ _ "New_Lexer ''1 + 08 + 2''" pa] a(1) by blast
  have o: "list_all operand_ok (operands tree)"
    using errors_iff_failed_conversion [of pa "Program tree" pb] a(2) by blast
  show ?thesis
    by (intro conjI exI [of _ pa] exI [of _ tree] exI [of _ pb]) (rule n i s a e o)+
qed

text \<open>
  The decimal literal \<open>09\<close> does not convert (base 0 reads a leading zero as octal):
  the additive source text \<open>1 + 09\<close> leaves a message in the error list.
\<close>

theorem octal_operand_counterexample:
  "numeral_text ''09''
   \<and> New_Parser (New_Lexer ''1 + 09'') = Returned parser_09
   \<and> ParseProgram parser_09 = Returned (Program tree_09, parser_09_done)
   \<and> errors parser_09_done = [CouldNotParseAsInteger ''09'']"
proof -
  have n: "numeral_text ''09''" by (simp add: numeral_text_def IsDigit_def)
  have new: "New_Parser (New_Lexer ''1 + 09'') = Returned parser_09"
    by code_simp
  have parse: "ParseProgram parser_09 = Returned (Program tree_09, parser_09_done)"
    by code_simp
  have e: "errors parser_09_done = [CouldNotParseAsInteger ''09'']"
    by (simp add: parser_09_done_def)
  show ?thesis using n new parse e by simp
qed

section \<open>More than 65536 constants\<close>

lemma lits_zeros_tree: "lits (zeros_tree n) = 7 # replicate n 0"
  by (induction n) (simp_all add: replicate_append_same)

lemma additive_zeros_tree: "additive (zeros_tree n)"
  by (induction n) simp_all

lemma eval_zeros_tree: "eval (zeros_tree n) = 7"
  by (induction n) simp_all

lemma loaded_zeros_tree:
  assumes "cs ! 0 = Int64 7" "\<forall>i. 0 < i \<and> i \<le> n \<longrightarrow> cs ! i = Int64 0" "n < 65536"
  shows "loaded cs 0 (zeros_tree n) = 7"
  using assms
proof (induction n)
  case 0
  then show ?case by simp
next
  case (Suc n)
  have "loaded cs 0 (zeros_tree n) = 7" using Suc by simp
  moreover have "cs ! (Suc n mod 65536) = Int64 0" using Suc.prems by simp
  ultimately show ?case by (simp add: lits_zeros_tree)
qed

lemma lits_tree_65537: "lits tree_65537 = 7 # replicate 65535 0 @ [1]"
  by (simp add: tree_65537_def lits_zeros_tree)

lemma loaded_tree_65537: "loaded (map Int64 (lits tree_65537)) 0 tree_65537 = 14"
proof -
  let ?cs = "map Int64 (7 # replicate 65535 0 @ [1])"
  have 0: "?cs ! 0 = Int64 7" by simp
  have z: "\<forall>i. 0 < i \<and> i \<le> 65535 \<longrightarrow> ?cs ! i = Int64 0"
    by (auto simp: nth_Cons' nth_append)
  have "loaded ?cs 0 (zeros_tree 65535) = 7"
    using loaded_zeros_tree [OF 0 z] by simp
  then show ?thesis
    unfolding lits_tree_65537 by (simp add: tree_65537_def lits_zeros_tree)
qed

lemma lits_shape: "lits (shape e) = lits e"
  by (induction e) simp_all

lemma loaded_shape: "loaded cs k (shape e) = loaded cs k e"
  by (induction e arbitrary: k) (simp_all add: lits_shape)

lemma decimal_digit [simp]: "decimal ''0'' = 0" "decimal ''1'' = 1" "decimal ''7'' = 7"
  by (simp_all add: decimal_def)

lemma grow_zeros:
  "foldl grow (IntegerLiteral zero_Token 7) (replicate n (Item [] (CHR ''+'') [] ''0''))
     = shape (zeros_tree n)"
proof (induction n)
  case 0
  show ?case by simp
next
  case (Suc n)
  have "replicate (Suc n) (Item [] (CHR ''+'') [] ''0'')
          = replicate n (Item [] (CHR ''+'') [] ''0'') @ [Item [] (CHR ''+'') [] ''0'']"
    by (simp add: replicate_append_same)
  then show ?case
    using Suc by (simp add: grow_def item_value_def del: replicate.simps)
qed

lemma grow_items_65537:
  "foldl grow (IntegerLiteral zero_Token 7) items_65537 = shape tree_65537"
  by (simp add: items_65537_def grow_zeros tree_65537_def grow_def item_value_def)

lemma apply_zeros:
  "foldl apply_item x (replicate n (Item [] (CHR ''+'') [] ''0'')) = x"
  by (induction n) (simp_all add: apply_item_def item_value_def)

lemma left_to_right_65537: "left_to_right ''7'' items_65537 = 8"
  by (simp add: left_to_right_def items_65537_def apply_zeros apply_item_def item_value_def)

lemma items_65537_ok: "list_all item_ok items_65537"
  by (simp add: items_65537_def list_all_iff item_ok_def blank_def literal_def numeral_text_def
        IsDigit_def)

lemma main_source:
  assumes "blank w0" "literal d0" "list_all item_ok items" "blank wend"
  shows "\<exists>tree. lits tree = word_of_int (decimal d0) # map item_value items
           \<and> shape tree = foldl grow (IntegerLiteral zero_Token (word_of_int (decimal d0))) items
           \<and> main (source w0 d0 items wend)
               = Returned (Result (Int64 (loaded (map Int64 (lits tree)) 0 tree)))"
proof -
  obtain p tree p1 where new: "New_Parser (New_Lexer (source w0 d0 items wend)) = Returned p"
    and parse: "ParseProgram p = Returned (Program tree, p1)" and noerr: "errors p1 = []"
    and add: "additive tree" and li: "lits tree = word_of_int (decimal d0) # map item_value items"
    and sh: "shape tree = foldl grow (IntegerLiteral zero_Token (word_of_int (decimal d0))) items"
    using ParseProgram_source [OF assms] by blast
  have a: "arith_tree tree" and d: "int (depth tree) \<le> StackSize"
    using additive_arith [OF add] by (simp_all add: StackSize_def)
  obtain c vm1 where comp: "Compile New_Compiler (Program tree) = Returned (None, c)"
    and run: "Run (New_VM (Bytecode_of c)) = Returned (None, vm1)"
    and top: "StackTop vm1 = Returned (Int64 (loaded (map Int64 (lits tree)) 0 tree))"
    using run_compiled [OF a d] by blast
  have "main (source w0 d0 items wend)
          = Returned (Result (Int64 (loaded (map Int64 (lits tree)) 0 tree)))"
    by (simp add: main_def new parse comp run noerr top del: Compile.simps)
  then show ?thesis using li sh by blast
qed

lemma main_65537: "main (source [] ''7'' items_65537 []) = Returned (Result (Int64 14))"
proof -
  have b: "blank []" by (simp add: blank_def)
  have l: "literal ''7''" by (simp add: literal_def numeral_text_def IsDigit_def)
  obtain tree where li: "lits tree = word_of_int (decimal ''7'') # map item_value items_65537"
    and sh: "shape tree = foldl grow (IntegerLiteral zero_Token (word_of_int (decimal ''7''))) items_65537"
    and m: "main (source [] ''7'' items_65537 [])
              = Returned (Result (Int64 (loaded (map Int64 (lits tree)) 0 tree)))"
    using main_source [OF b l items_65537_ok b] by blast
  have sh': "shape tree = shape tree_65537" using sh by (simp add: grow_items_65537)
  have "lits tree = lits tree_65537"
    using arg_cong [OF sh', of lits] by (simp add: lits_shape)
  moreover have "loaded cs 0 tree = loaded cs 0 tree_65537" for cs
    using arg_cong [OF sh', of "loaded cs 0"] by (simp add: loaded_shape)
  ultimately show ?thesis using m loaded_tree_65537 by simp
qed

lemma length_source_65537: "length (source [] ''7'' items_65537 []) = 131073"
  by (simp add: source_def items_65537_def render_item_def length_concat sum_list_replicate)

text \<open>
  Claim C4 at a source text with more than 65536 literals.  \<open>emit\<close> writes an operand
  in two bytes (its comment assumes that two bytes are enough) and \<open>Compile\<close> checks
  no limit.  For the tree of \<open>7+0+...+0+1\<close> with 65537 literals \<open>Compile\<close>
  returns the nil error, the pool has 65537 entries, and the load-constant instruction
  for the last literal, at pool position 65536, embeds the index 0, the position of the
  literal 7.  Running the program ends with 14 on top of the stack, and so does \<open>main\<close>
  on the source text, 131073 characters long; the value of the expression, from left
  to right, is 8.
\<close>

theorem index_wraps_at_65536:
  "(\<exists>c vm. Compile New_Compiler (Program tree_65537) = Returned (None, c)
      \<and> length (constants c) = 65537
      \<and> constants c ! 0 = Int64 7 \<and> constants c ! 65536 = Int64 1
      \<and> length (load_operands (instructions c)) = 65537
      \<and> load_operands (instructions c) ! 65536 = 0
      \<and> Run (New_VM (Bytecode_of c)) = Returned (None, vm)
      \<and> StackTop vm = Returned (Int64 14))
   \<and> eval tree_65537 = 8
   \<and> length (source [] ''7'' items_65537 []) = 131073
   \<and> main (source [] ''7'' items_65537 []) = Returned (Result (Int64 14))
   \<and> left_to_right ''7'' items_65537 = 8"
proof -
  have add: "additive tree_65537" by (simp add: tree_65537_def additive_zeros_tree)
  have a: "arith_tree tree_65537" and d: "int (depth tree_65537) \<le> StackSize"
    using additive_arith [OF add] by (simp_all add: StackSize_def)
  obtain c vm where comp: "Compile New_Compiler (Program tree_65537) = Returned (None, c)"
    and ins: "instructions c = code 0 tree_65537"
    and cs: "constants c = map Int64 (lits tree_65537)"
    and run: "Run (New_VM (Bytecode_of c)) = Returned (None, vm)"
    and top: "StackTop vm = Returned (Int64 (loaded (map Int64 (lits tree_65537)) 0 tree_65537))"
    using run_compiled [OF a d] by blast
  have len: "length (constants c) = 65537" by (simp add: cs lits_tree_65537)
  have c0: "constants c ! 0 = Int64 7" by (simp add: cs lits_tree_65537)
  have c1: "constants c ! 65536 = Int64 1"
    by (simp add: cs lits_tree_65537 nth_append)
  have ops: "load_operands (instructions c) = map (\<lambda>i. int i mod 65536) [0 ..< 65537]"
    using load_operands_code [of 0 tree_65537 "[]"] by (simp add: ins lits_tree_65537)
  have l: "length (load_operands (instructions c)) = 65537" unfolding ops by simp
  have w: "load_operands (instructions c) ! 65536 = 0" unfolding ops by simp
  have t14: "StackTop vm = Returned (Int64 14)" using top loaded_tree_65537 by simp
  have ev: "eval tree_65537 = 8" by (simp add: tree_65537_def eval_zeros_tree)
  have 1: "\<exists>c vm. Compile New_Compiler (Program tree_65537) = Returned (None, c)
      \<and> length (constants c) = 65537
      \<and> constants c ! 0 = Int64 7 \<and> constants c ! 65536 = Int64 1
      \<and> length (load_operands (instructions c)) = 65537
      \<and> load_operands (instructions c) ! 65536 = 0
      \<and> Run (New_VM (Bytecode_of c)) = Returned (None, vm)
      \<and> StackTop vm = Returned (Int64 14)"
    by (intro exI [of _ c] exI [of _ vm] conjI) (rule comp len c0 c1 l w run t14)+
  show ?thesis
    by (intro conjI) (rule 1 ev length_source_65537 main_65537 left_to_right_65537)+
qed

end
